theory Spec2Isabelle
  imports Main "HOL-Library.Sublist"
begin

section \<open>The regular expressions of \<open>fix_colors.py\<close>\<close>

text \<open>
  The script uses Python's \<open>re.sub\<close> with nine patterns. Every pattern is a
  sequence of escaped literal characters and of capturing groups \<open>([...]+)\<close> holding a
  character class under a greedy \<open>+\<close>. A character class is the list of its ranges
  (\<open>a-z\<close> is the pair of its ends, a single character \<open>_\<close> the pair \<open>(_, _)\<close>).
  The text of a file is a \<open>string\<close>; the patterns only name ASCII characters.
\<close>

type_synonym cclass = "(char \<times> char) list"

datatype item = Lit string | Grp cclass

type_synonym pattern = "item list"

definition in_class :: "cclass \<Rightarrow> char \<Rightarrow> bool" where
  "in_class cs c =
     list_ex (\<lambda>(lo, hi). (of_char lo :: nat) \<le> of_char c \<and> (of_char c :: nat) \<le> of_char hi) cs"

text \<open>
  The backtracking of a greedy \<open>+\<close>: the longest run is tried first, then every
  shorter one down to a single character; \<open>k\<close> matches the rest of the pattern.
\<close>

primrec backtrack ::
  "(string \<Rightarrow> (string list \<times> string) option) \<Rightarrow> string \<Rightarrow> nat \<Rightarrow> (string list \<times> string) option"
where
  "backtrack k s 0 = None"
| "backtrack k s (Suc n) =
     (case k (drop (Suc n) s) of
        Some (gs, r) \<Rightarrow> Some (take (Suc n) s # gs, r)
      | None \<Rightarrow> backtrack k s n)"

text \<open>
  \<open>match_items p s\<close> is \<open>re.match\<close> at the head of \<open>s\<close>: the captured groups and
  the text left after the match, or \<open>None\<close>.
\<close>

primrec match_items :: "pattern \<Rightarrow> string \<Rightarrow> (string list \<times> string) option" where
  "match_items [] = (\<lambda>s. Some ([], s))"
| "match_items (i # is) =
     (\<lambda>s. case i of
        Lit l \<Rightarrow> (if prefix l s then match_items is (drop (length l) s) else None)
      | Grp cs \<Rightarrow> backtrack (match_items is) s (length (takeWhile (in_class cs) s)))"

text \<open>
  A replacement template: literal text and group references \<open>\1\<close>, \<open>\2\<close>.
  Python rejects a reference beyond the pattern's groups when it compiles the template;
  the templates of the script only refer to groups their patterns have
  (lemma \<open>refs_in_range\<close> below), so that branch yields the empty string here.
\<close>

datatype titem = TLit string | TRef nat

type_synonym template = "titem list"

fun expand :: "template \<Rightarrow> string list \<Rightarrow> string" where
  "expand [] gs = []"
| "expand (TLit l # ts) gs = l @ expand ts gs"
| "expand (TRef n # ts) gs =
     (if 0 < n \<and> n \<le> length gs then gs ! (n - 1) else []) @ expand ts gs"

text \<open>
  \<open>re.sub(pattern, repl, string)\<close>: scan from the left; at a match emit the expanded
  template and go on after the match, otherwise copy one character. An empty match
  (which no pattern of the script has, lemma \<open>match_items_shorter\<close>) emits the template and
  copies the character.
\<close>

function re_sub :: "pattern \<Rightarrow> template \<Rightarrow> string \<Rightarrow> string" where
  "re_sub p t s =
     (case match_items p s of
        Some (gs, r) \<Rightarrow>
          (if length r < length s then expand t gs @ re_sub p t r
           else (case s of [] \<Rightarrow> expand t gs | c # s' \<Rightarrow> expand t gs @ c # re_sub p t s'))
      | None \<Rightarrow> (case s of [] \<Rightarrow> [] | c # s' \<Rightarrow> c # re_sub p t s'))"
  by pat_completeness auto
termination
  by (relation "measure (\<lambda>(p, t, s). length s)") auto

declare re_sub.simps [simp del]

section \<open>The rules of \<open>fix_color_conversions\<close>\<close>

definition ident :: cclass where
  "ident = [(CHR ''a'', CHR ''z''), (CHR ''A'', CHR ''Z''), (CHR ''_'', CHR ''_'')]"

definition numcl :: cclass where
  "numcl = [(CHR ''0'', CHR ''9''), (CHR ''.'', CHR ''.'')]"

definition pattern1 :: pattern where
  "pattern1 = [Lit ''self.theme.scheme.'', Grp ident, Lit ''.into()'']"

definition replacement1 :: template where
  "replacement1 = [TLit ''iced::Color::from(self.theme.scheme.'', TRef 1, TLit '')'']"

definition pattern2 :: pattern where
  "pattern2 = [Lit ''theme.scheme.'', Grp ident, Lit ''.into()'']"

definition replacement2 :: template where
  "replacement2 = [TLit ''iced::Color::from(theme.scheme.'', TRef 1, TLit '')'']"

definition pattern3 :: pattern where
  "pattern3 = [Lit ''self.theme.scheme.'', Grp ident, Lit ''.scale_alpha('', Grp numcl,
               Lit '').into()'']"

definition replacement3 :: template where
  "replacement3 = [TLit ''iced::Color::from(self.theme.scheme.'', TRef 1,
                   TLit ''.scale_alpha('', TRef 2, TLit ''))'']"

definition pattern4 :: pattern where
  "pattern4 = [Lit ''theme.scheme.'', Grp ident, Lit ''.scale_alpha('', Grp numcl,
               Lit '').into()'']"

definition replacement4 :: template where
  "replacement4 = [TLit ''iced::Color::from(theme.scheme.'', TRef 1,
                   TLit ''.scale_alpha('', TRef 2, TLit ''))'']"

definition color_vars :: "string list" where
  "color_vars = [''background_color'', ''border_color'', ''text_color'', ''surface_color'',
                 ''counter_color'']"

definition var_pattern :: "string \<Rightarrow> pattern" where
  "var_pattern var = [Lit (var @ ''.into()'')]"

definition var_replacement :: "string \<Rightarrow> template" where
  "var_replacement var = [TLit (''iced::Color::from('' @ var @ '')'')]"

text \<open>
  Lines 16 to 44 of \<open>fix_color_conversions\<close>: the buffer \<open>content\<close> goes through the
  four substitutions and then through the loop over \<open>color_vars\<close>.
\<close>

definition rewrite_content :: "string \<Rightarrow> string" where
  "rewrite_content original_content =
     (let content = re_sub pattern1 replacement1 original_content;
          content = re_sub pattern2 replacement2 content;
          content = re_sub pattern3 replacement3 content;
          content = re_sub pattern4 replacement4 content
      in foldl (\<lambda>content var. re_sub (var_pattern var) (var_replacement var) content)
           content color_vars)"

text \<open>
  The nine substitutions in the order the function runs them, and their composition.
\<close>

definition rules :: "(pattern \<times> template) list" where
  "rules = [(pattern1, replacement1), (pattern2, replacement2), (pattern3, replacement3),
            (pattern4, replacement4)] @
           map (\<lambda>var. (var_pattern var, var_replacement var)) color_vars"

definition apply_rules :: "(pattern \<times> template) list \<Rightarrow> string \<Rightarrow> string" where
  "apply_rules rs s = foldl (\<lambda>content (p, t). re_sub p t content) s rs"


section \<open>Files: \<open>fix_color_conversions\<close> and \<open>main\<close>\<close>

text \<open>
  A file is the text that \<open>f.read()\<close> returns from it and three flags: whether opening
  it for reading succeeds, whether its bytes decode as UTF-8, and whether opening it for
  writing succeeds. The world is the file system, the trace of the files written (one
  entry per \<open>f.write\<close>) and the lines printed. An exception is a value of type \<open>error\<close>;
  the script has no \<open>try\<close>, so an exception ends every caller.
\<close>

type_synonym path = string

record text_file =
  data :: string
  readable :: bool
  decodable :: bool
  writable :: bool

datatype error = ReadError path | DecodeError path | WriteError path

record world =
  files :: "path \<Rightarrow> text_file option"
  writes :: "path list"
  stdout :: "string list"

definition fix_color_conversions :: "path \<Rightarrow> world \<Rightarrow> (error + bool) \<times> world" where
  "fix_color_conversions file_path w =
     (case files w file_path of
        None \<Rightarrow> (Inl (ReadError file_path), w)
      | Some f \<Rightarrow>
          if \<not> readable f then (Inl (ReadError file_path), w)
          else if \<not> decodable f then (Inl (DecodeError file_path), w)
          else
            let original_content = data f;
                content = rewrite_content original_content
            in if content \<noteq> original_content then
                 (if \<not> writable f then (Inl (WriteError file_path), w)
                  else (Inr True,
                        w\<lparr>files := (files w)(file_path \<mapsto> f\<lparr>data := content\<rparr>),
                          writes := writes w @ [file_path],
                          stdout := stdout w @ [''Fixed color conversions in '' @ file_path]\<rparr>))
               else (Inr False, w))"

text \<open>The decimal digits of a number, as an f-string prints it.\<close>

function show_nat :: "nat \<Rightarrow> string" where
  "show_nat n =
     (if n < 10 then [char_of (48 + n)]
      else show_nat (n div 10) @ [char_of (48 + n mod 10)])"
  by pat_completeness auto
termination
  by (relation "measure id") auto

declare show_nat.simps [simp del]

text \<open>
  The loop of \<open>main\<close> over \<open>component_files\<close>, the list \<open>glob.glob\<close> returned (its order
  is the operating system's), with the counter \<open>files_modified\<close>.
\<close>

fun main_loop :: "path list \<Rightarrow> nat \<Rightarrow> world \<Rightarrow> (error + nat) \<times> world" where
  "main_loop [] files_modified w = (Inr files_modified, w)"
| "main_loop (file_path # rest) files_modified w =
     (case fix_color_conversions file_path w of
        (Inl e, w') \<Rightarrow> (Inl e, w')
      | (Inr changed, w') \<Rightarrow>
          main_loop rest (if changed then files_modified + 1 else files_modified) w')"

definition main :: "path list \<Rightarrow> world \<Rightarrow> (error + unit) \<times> world" where
  "main component_files w =
     (case main_loop component_files 0 w of
        (Inl e, w') \<Rightarrow> (Inl e, w')
      | (Inr files_modified, w') \<Rightarrow>
          (Inr (),
           w'\<lparr>stdout := stdout w' @ [''Modified '' @ show_nat files_modified @ '' files'']\<rparr>))"

text \<open>A world to run the script in: two files that open, one that cannot be read, a fourth.\<close>

definition plain_file :: "string \<Rightarrow> text_file" where
  "plain_file s = \<lparr>data = s, readable = True, decodable = True, writable = True\<rparr>"

definition example_world :: world where
  "example_world =
     \<lparr>files = [''a.rs'' \<mapsto> plain_file ''let c = border_color.into();'',
               ''b.rs'' \<mapsto> plain_file ''fn main() {}'',
               ''c.rs'' \<mapsto> (plain_file ''text_color.into()'')\<lparr>readable := False\<rparr>,
               ''d.rs'' \<mapsto> plain_file ''text_color.into()''],
      writes = [], stdout = []\<rparr>"

section \<open>Notions for the proofs: what a pattern matches\<close>

text \<open>
  \<open>parses p w gs\<close>: the word \<open>w\<close> is matched by the pattern \<open>p\<close> with the groups
  \<open>gs\<close>. A pattern is \<open>delimited\<close> when every group is followed by a literal whose
  first character lies outside the group's class: then the greedy run is the only
  candidate and backtracking never finds another match.
\<close>

inductive parses :: "pattern \<Rightarrow> string \<Rightarrow> string list \<Rightarrow> bool" where
  parses_Nil: "parses [] [] []"
| parses_Lit: "parses is w gs \<Longrightarrow> parses (Lit l # is) (l @ w) gs"
| parses_Grp: "parses is w gs \<Longrightarrow> g \<noteq> [] \<Longrightarrow> \<forall>c\<in>set g. in_class cs c \<Longrightarrow>
     parses (Grp cs # is) (g @ w) (g # gs)"

inductive_simps parses_Nil_iff: "parses [] w gs"
inductive_simps parses_Lit_iff: "parses (Lit l # is) w gs"
inductive_simps parses_Grp_iff: "parses (Grp cs # is) w gs"

fun delimited :: "pattern \<Rightarrow> bool" where
  "delimited [] = True"
| "delimited (Lit l # is) = delimited is"
| "delimited (Grp cs # is) =
     (case is of Lit (d # l) # _ \<Rightarrow> \<not> in_class cs d \<and> delimited is | _ \<Rightarrow> False)"


definition wf_pattern :: "pattern \<Rightarrow> bool" where
  "wf_pattern p = (delimited p \<and> (\<forall>gs. \<not> parses p [] gs))"

definition no_match :: "pattern \<Rightarrow> string \<Rightarrow> bool" where
  "no_match p s = list_all (\<lambda>u. match_items p u = None) (suffixes s)"

text \<open>
  A text \<open>y\<close> closes the pattern on its left when no word that starts in front of it
  reaches into it.
\<close>

definition closes :: "pattern \<Rightarrow> string \<Rightarrow> bool" where
  "closes p y = (\<forall>u w gs. u \<noteq> [] \<and> parses p w gs \<and> prefix w (u @ y) \<longrightarrow> prefix w u)"


text \<open>
  The shape that keeps the rules apart. Every word of the nine patterns ends with
  \<open>()\<close>, and a closing parenthesis in it follows an opening one or a character of the
  numeric class. Every expanded template ends with a closing parenthesis that follows
  neither, starts with another character and holds no \<open>()\<close>. \<open>preceded c Q s\<close>:
  every character in front of a \<open>c\<close> in \<open>s\<close> satisfies \<open>Q\<close>.
\<close>

fun preceded :: "char \<Rightarrow> (char \<Rightarrow> bool) \<Rightarrow> string \<Rightarrow> bool" where
  "preceded c Q (a # b # s) = ((b = c \<longrightarrow> Q a) \<and> preceded c Q (b # s))"
| "preceded c Q [a] = True"
| "preceded c Q [] = True"

abbreviation before_close :: "(char \<Rightarrow> bool) \<Rightarrow> string \<Rightarrow> bool" where
  "before_close \<equiv> preceded (CHR '')'')"

definition good_word :: "string \<Rightarrow> bool" where
  "good_word w = ((\<exists>x. w = x @ ''()'') \<and> hd w \<noteq> CHR '')'' \<and>
     before_close (\<lambda>a. a = CHR ''('' \<or> in_class numcl a) w)"

definition barrier :: "string \<Rightarrow> bool" where
  "barrier R = ((\<exists>m q. R = m @ [q, CHR '')''] \<and> q \<noteq> CHR ''('' \<and> \<not> in_class numcl q) \<and>
     hd R \<noteq> CHR '')'' \<and> before_close (\<lambda>a. a \<noteq> CHR ''('') R)"

definition good_pattern :: "pattern \<Rightarrow> bool" where
  "good_pattern p = (wf_pattern p \<and> (\<forall>w gs. parses p w gs \<longrightarrow> good_word w))"

definition good_rule :: "pattern \<Rightarrow> template \<Rightarrow> bool" where
  "good_rule p t = (good_pattern p \<and> (\<forall>w gs. parses p w gs \<longrightarrow> barrier (expand t gs)))"


definition var_ok :: "string \<Rightarrow> bool" where
  "var_ok v = (v \<noteq> [] \<and> CHR '')'' \<notin> set v \<and> last v \<noteq> CHR ''('' \<and> \<not> in_class numcl (last v))"


text \<open>The groups of a pattern and the references of a template.\<close>

fun group_count :: "pattern \<Rightarrow> nat" where
  "group_count [] = 0"
| "group_count (Lit l # is) = group_count is"
| "group_count (Grp cs # is) = Suc (group_count is)"

fun refs :: "template \<Rightarrow> nat list" where
  "refs [] = []"
| "refs (TLit l # ts) = refs ts"
| "refs (TRef n # ts) = n # refs ts"


text \<open>
  The words of the patterns without \<open>scale_alpha\<close> hold one pair of parentheses, at
  their end.
\<close>

definition no_paren :: "char \<Rightarrow> bool" where
  "no_paren c = (c \<noteq> CHR ''('' \<and> c \<noteq> CHR '')'')"

definition simple_word :: "string \<Rightarrow> bool" where
  "simple_word w = (\<exists>body. w = body @ ''()'' \<and> (\<forall>c\<in>set body. no_paren c))"

definition simple_pattern :: "pattern \<Rightarrow> bool" where
  "simple_pattern p = (wf_pattern p \<and> (\<forall>w gs. parses p w gs \<longrightarrow> simple_word w))"


text \<open>
  The shape the specification gives the argument of \<open>scale_alpha\<close>: digits with an
  optional decimal point.
\<close>

definition decimal_shape :: "string \<Rightarrow> bool" where
  "decimal_shape s =
     (s \<noteq> [] \<and> (\<forall>c\<in>set s. c \<in> set ''0123456789.'') \<and> length (filter (\<lambda>c. c = CHR ''.'') s) \<le> 1)"


section \<open>The rule engine of the specification\<close>

text \<open>
  The rule engine in the words of the specification: a rule is a list of
  matcher/template pairs (one pair for rules 1 to 4, one pair per name for rule 5); a
  pass scans the buffer from the left, replaces the match of the first pair that
  matches where it stands and goes on after the match; the engine runs the five
  passes in their order, each on the output of the one before.
\<close>

type_synonym rule = "(pattern \<times> template) list"

fun first_match :: "rule \<Rightarrow> string \<Rightarrow> (string \<times> string) option" where
  "first_match [] s = None"
| "first_match ((p, t) # alts) s =
     (case match_items p s of
        Some (gs, r) \<Rightarrow> Some (expand t gs, r)
      | None \<Rightarrow> first_match alts s)"

function global_replace :: "rule \<Rightarrow> string \<Rightarrow> string" where
  "global_replace alts s =
     (case first_match alts s of
        Some (out, r) \<Rightarrow>
          (if length r < length s then out @ global_replace alts r
           else (case s of [] \<Rightarrow> out | c # s' \<Rightarrow> out @ c # global_replace alts s'))
      | None \<Rightarrow> (case s of [] \<Rightarrow> [] | c # s' \<Rightarrow> c # global_replace alts s'))"
  by pat_completeness auto
termination
  by (relation "measure (\<lambda>(alts, s). length s)") auto

declare global_replace.simps [simp del]

definition five_rules :: "rule list" where
  "five_rules =
     [[(pattern1, replacement1)], [(pattern2, replacement2)], [(pattern3, replacement3)],
      [(pattern4, replacement4)],
      map (\<lambda>var. (var_pattern var, var_replacement var)) color_vars]"

definition rule_engine :: "string \<Rightarrow> string" where
  "rule_engine s = foldl (\<lambda>buffer rule. global_replace rule buffer) s five_rules"

text \<open>No word of \<open>p\<close> starts inside a word of \<open>p'\<close>, after its first character.\<close>

definition apart :: "pattern \<Rightarrow> pattern \<Rightarrow> bool" where
  "apart p p' =
     (\<forall>x gs w gs' u z. parses p x gs \<and> parses p' w gs' \<and> suffix u w \<and> u \<noteq> [] \<and> u \<noteq> w \<longrightarrow>
        \<not> prefix x (u @ z))"


section \<open>The matcher finds exactly the words of a delimited pattern\<close>

lemma backtrack_top:
  "(\<forall>m. 0 < m \<and> m < n \<longrightarrow> k (drop m s) = None) \<Longrightarrow>
   backtrack k s n =
     (if n = 0 then None
      else (case k (drop n s) of Some (gs, r) \<Rightarrow> Some (take n s # gs, r) | None \<Rightarrow> None))"
proof (induction n)
  case 0
  then show ?case by simp
next
  case (Suc n)
  then have ih: "backtrack k s n =
     (if n = 0 then None
      else (case k (drop n s) of Some (gs, r) \<Rightarrow> Some (take n s # gs, r) | None \<Rightarrow> None))"
    by simp
  have "n \<noteq> 0 \<Longrightarrow> k (drop n s) = None"
    using Suc.prems by simp
  with ih have "backtrack k s n = None"
    by (cases "n = 0") simp_all
  then show ?case
    by (simp split: option.splits)
qed

lemma takeWhile_run:
  "\<forall>c\<in>set g. P c \<Longrightarrow> \<not> P d \<Longrightarrow> takeWhile P (g @ d # x) = g"
  by (induction g) simp_all

lemma dropWhile_run:
  "\<forall>c\<in>set g. P c \<Longrightarrow> \<not> P d \<Longrightarrow> dropWhile P (g @ d # x) = d # x"
  by (induction g) simp_all

lemma match_lit_nth:
  assumes "m < length (takeWhile P s)" and "\<not> P d"
  shows "\<not> prefix (d # l) (drop m s)"
proof
  assume "prefix (d # l) (drop m s)"
  then obtain x where x: "drop m s = d # l @ x"
    by (auto simp: prefix_def)
  from assms(1) have "m < length s"
    using length_takeWhile_le [of P s] by simp
  then have "s ! m = d"
    using x by (metis hd_drop_conv_nth list.sel(1))
  moreover have "P (s ! m)"
    using assms(1) by (metis nth_mem set_takeWhileD takeWhile_nth)
  ultimately show False
    using assms(2) by simp
qed

lemma match_items_iff:
  "delimited p \<Longrightarrow>
   match_items p s = Some (gs, r) \<longleftrightarrow> (\<exists>w. s = w @ r \<and> parses p w gs)"
proof (induction p arbitrary: s gs r)
  case Nil
  then show ?case by (auto simp: parses_Nil_iff)
next
  case (Cons i p)
  show ?case
  proof (cases i)
    case (Lit l)
    with Cons.prems have d: "delimited p" by simp
    show ?thesis
      unfolding Lit
      by (auto simp: Cons.IH [OF d] parses_Lit_iff prefix_def)
  next
    case (Grp cs)
    with Cons.prems obtain d l p' where p: "p = Lit (d # l) # p'"
      and nd: "\<not> in_class cs d" and dp: "delimited p"
      by (auto split: list.splits item.splits)
    let ?n = "length (takeWhile (in_class cs) s)"
    have none: "\<forall>m. 0 < m \<and> m < ?n \<longrightarrow> match_items p (drop m s) = None"
      using match_lit_nth [where P = "in_class cs" and d = d and s = s and l = l] nd
      by (simp add: p)
    have bt: "match_items (i # p) s =
        (if ?n = 0 then None
         else (case match_items p (drop ?n s) of
                 Some (gs, r) \<Rightarrow> Some (take ?n s # gs, r) | None \<Rightarrow> None))"
      unfolding Grp using backtrack_top [OF none] by simp
    have tk: "take ?n s = takeWhile (in_class cs) s"
      by (metis takeWhile_eq_take)
    have dr: "drop ?n s = dropWhile (in_class cs) s"
      by (metis dropWhile_eq_drop)
    show ?thesis
    proof
      assume "match_items (i # p) s = Some (gs, r)"
      then obtain gs' where n0: "?n \<noteq> 0"
        and m: "match_items p (dropWhile (in_class cs) s) = Some (gs', r)"
        and gs: "gs = takeWhile (in_class cs) s # gs'"
        unfolding bt tk dr by (auto split: if_splits option.splits)
      from m obtain w where w: "dropWhile (in_class cs) s = w @ r" "parses p w gs'"
        using Cons.IH [OF dp] by blast
      have "parses (Grp cs # p) (takeWhile (in_class cs) s @ w) (takeWhile (in_class cs) s # gs')"
        using w(2) n0 by (intro parses_Grp) (auto dest: set_takeWhileD)
      moreover have "s = (takeWhile (in_class cs) s @ w) @ r"
        using w(1) by (metis append.assoc takeWhile_dropWhile_id)
      ultimately show "\<exists>w. s = w @ r \<and> parses (i # p) w gs"
        unfolding Grp gs by blast
    next
      assume "\<exists>w. s = w @ r \<and> parses (i # p) w gs"
      then obtain g w gs' where s: "s = (g @ w) @ r" and g: "g \<noteq> []" "\<forall>c\<in>set g. in_class cs c"
        and pw: "parses p w gs'" and gs: "gs = g # gs'"
        unfolding Grp by (auto simp: parses_Grp_iff)
      from pw obtain w' where w': "w = d # w'"
        unfolding p by (auto simp: parses_Lit_iff)
      have t: "takeWhile (in_class cs) s = g"
        unfolding s w' using takeWhile_run [OF g(2) nd] by simp
      have dw: "dropWhile (in_class cs) s = w @ r"
        unfolding s w' using dropWhile_run [OF g(2) nd] by simp
      have "match_items p (w @ r) = Some (gs', r)"
        using Cons.IH [OF dp] pw by blast
      moreover have "?n \<noteq> 0" "take ?n s = g" "drop ?n s = w @ r"
        using g(1) t dw tk dr by simp_all
      ultimately show "match_items (i # p) s = Some (gs, r)"
        unfolding bt gs by simp
    qed
  qed
qed


section \<open>Substitution, one step at a time and across a boundary\<close>

lemma no_match_iff: "no_match p s \<longleftrightarrow> (\<forall>u. suffix u s \<longrightarrow> match_items p u = None)"
  by (auto simp: no_match_def list_all_iff)

lemma match_items_word:
  "wf_pattern p \<Longrightarrow> parses p w gs \<Longrightarrow> match_items p (w @ r) = Some (gs, r)"
  by (auto simp: wf_pattern_def match_items_iff)

lemma match_items_SomeD:
  "wf_pattern p \<Longrightarrow> match_items p s = Some (gs, r) \<Longrightarrow>
   \<exists>w. s = w @ r \<and> w \<noteq> [] \<and> parses p w gs"
  by (auto simp: wf_pattern_def match_items_iff)

lemma match_items_shorter:
  "wf_pattern p \<Longrightarrow> match_items p s = Some (gs, r) \<Longrightarrow> length r < length s"
  by (auto dest!: match_items_SomeD)

lemma match_items_None_iff:
  "wf_pattern p \<Longrightarrow> match_items p s = None \<longleftrightarrow> (\<forall>w gs. parses p w gs \<longrightarrow> \<not> prefix w s)"
proof
  assume wf: "wf_pattern p" and n: "match_items p s = None"
  show "\<forall>w gs. parses p w gs \<longrightarrow> \<not> prefix w s"
  proof (intro allI impI notI)
    fix w gs assume "parses p w gs" "prefix w s"
    then obtain r where "s = w @ r" "parses p w gs" by (auto simp: prefix_def)
    then show False using match_items_word [OF wf] n by fastforce
  qed
next
  assume wf: "wf_pattern p" and a: "\<forall>w gs. parses p w gs \<longrightarrow> \<not> prefix w s"
  show "match_items p s = None"
  proof (cases "match_items p s")
    case None then show ?thesis .
  next
    case (Some x)
    obtain gs r where "x = (gs, r)" by (cases x)
    with Some match_items_SomeD [OF wf] obtain w where "s = w @ r" "parses p w gs"
      by blast
    with a show ?thesis by auto
  qed
qed

lemma re_sub_Nil: "wf_pattern p \<Longrightarrow> re_sub p t [] = []"
  by (subst re_sub.simps) (auto split: option.splits dest: match_items_shorter)

lemma re_sub_miss:
  "match_items p (c # s) = None \<Longrightarrow> re_sub p t (c # s) = c # re_sub p t s"
  by (subst re_sub.simps) simp

lemma re_sub_hit:
  "wf_pattern p \<Longrightarrow> match_items p s = Some (gs, r) \<Longrightarrow>
   re_sub p t s = expand t gs @ re_sub p t r"
  by (subst re_sub.simps) (auto dest: match_items_shorter)

lemma re_sub_word:
  "wf_pattern p \<Longrightarrow> parses p w gs \<Longrightarrow> re_sub p t (w @ r) = expand t gs @ re_sub p t r"
  by (simp add: re_sub_hit match_items_word)

lemma re_sub_skip:
  "wf_pattern p \<Longrightarrow> (\<forall>u. u \<noteq> [] \<and> suffix u x \<longrightarrow> match_items p (u @ y) = None) \<Longrightarrow>
   re_sub p t (x @ y) = x @ re_sub p t y"
proof (induction x)
  case Nil
  then show ?case by simp
next
  case (Cons c x)
  have "match_items p ((c # x) @ y) = None"
    using Cons.prems(2) by blast
  moreover have "\<forall>u. u \<noteq> [] \<and> suffix u x \<longrightarrow> match_items p (u @ y) = None"
    using Cons.prems(2) by (simp add: suffix_Cons)
  ultimately show ?case
    using Cons.IH Cons.prems(1) by (simp add: re_sub_miss)
qed

lemma re_sub_no_match: "wf_pattern p \<Longrightarrow> no_match p s \<Longrightarrow> re_sub p t s = s"
  using re_sub_skip [of p s "[]" t] by (simp add: no_match_iff re_sub_Nil)

lemma re_sub_append:
  assumes wf: "wf_pattern p" and cl: "closes p y"
  shows "re_sub p t (a @ y) = re_sub p t a @ re_sub p t y"
proof (induction a rule: length_induct)
  case (1 a)
  show ?case
  proof (cases a)
    case Nil
    then show ?thesis by (simp add: re_sub_Nil [OF wf])
  next
    case (Cons c a')
    show ?thesis
    proof (cases "match_items p (a @ y)")
      case None
      then have "match_items p a = None"
        using wf by (auto simp: match_items_None_iff)
      with None "1.IH" show ?thesis
        unfolding Cons by (simp add: re_sub_miss)
    next
      case (Some x)
      obtain gs r where x: "x = (gs, r)" by (cases x)
      from Some obtain w where w: "a @ y = w @ r" "w \<noteq> []" "parses p w gs"
        unfolding x using match_items_SomeD [OF wf] by blast
      have "prefix w (a @ y)" using w(1) by simp
      then have "prefix w a"
        using cl w(3) Cons unfolding closes_def by blast
      then obtain a'' where a'': "a = w @ a''" by (auto simp: prefix_def)
      with w(1) have r: "r = a'' @ y" by simp
      have "length a'' < length a" using a'' w(2) by simp
      then have "re_sub p t (a'' @ y) = re_sub p t a'' @ re_sub p t y"
        using "1.IH" by blast
      moreover have "re_sub p t (a @ y) = expand t gs @ re_sub p t (a'' @ y)"
        using re_sub_word [OF wf w(3)] a'' by simp
      moreover have "re_sub p t a = expand t gs @ re_sub p t a''"
        using re_sub_word [OF wf w(3)] a'' by simp
      ultimately show ?thesis by simp
    qed
  qed
qed


section \<open>No word of a pattern overlaps an expanded template\<close>

lemma preceded_append:
  "preceded c Q (x @ y) \<longleftrightarrow>
     preceded c Q x \<and> preceded c Q y \<and> (x \<noteq> [] \<and> y \<noteq> [] \<and> hd y = c \<longrightarrow> Q (last x))"
proof (induction c Q x rule: preceded.induct)
  case (1 c Q a b s)
  then show ?case by auto
next
  case (2 c Q a)
  then show ?case by (cases y) auto
next
  case (3 c Q)
  then show ?case by simp
qed

lemma preceded_Cons:
  "preceded c Q (a # s) \<longleftrightarrow> preceded c Q s \<and> (s \<noteq> [] \<and> hd s = c \<longrightarrow> Q a)"
  using preceded_append [of c Q "[a]" s] by simp

lemma preceded_free: "c \<notin> set s \<Longrightarrow> preceded c Q s"
  by (induction c Q s rule: preceded.induct) auto

lemma hd_free: "c \<notin> set s \<Longrightarrow> s \<noteq> [] \<Longrightarrow> hd s \<noteq> c"
  by (cases s) auto

lemma word_in_barrier:
  assumes w: "good_word w" and R: "barrier R" and e: "R = x @ w @ y"
  shows False
proof -
  from w obtain z where "w = z @ ''()''" by (auto simp: good_word_def)
  with e have "R = (x @ z) @ ''()'' @ y" by simp
  moreover have "before_close (\<lambda>a. a \<noteq> CHR ''('') R"
    using R by (simp add: barrier_def)
  ultimately show False
    by (simp add: preceded_append)
qed

lemma ends_unit:
  assumes "u @ v = z @ ''()''" and "v \<noteq> []"
  shows "v = [CHR '')''] \<or> (\<exists>v'. v = v' @ ''()'')"
proof (cases v rule: rev_cases)
  case Nil
  with assms show ?thesis by simp
next
  case (snoc v1 a)
  note s1 = snoc
  show ?thesis
  proof (cases v1 rule: rev_cases)
    case Nil
    with s1 assms(1) show ?thesis
      by (metis append_assoc append_Cons append_Nil last_snoc)
  next
    case (snoc v2 b)
    have "u @ v = (u @ v2) @ [b, a]"
      using s1 snoc by simp
    with assms(1) have "(u @ v2) @ [b, a] = z @ [CHR ''('', CHR '')'']"
      by simp
    then have "b = CHR ''(''" "a = CHR '')''"
      by simp_all
    with s1 snoc show ?thesis by simp
  qed
qed

lemma barrier_closes:
  assumes w: "good_word w" and R: "barrier R" and p: "prefix w (u @ R @ b)"
  shows "prefix w u"
proof (rule ccontr)
  assume n: "\<not> prefix w u"
  from R obtain m q where m: "R = m @ [q, CHR '')'']" "q \<noteq> CHR ''(''" "\<not> in_class numcl q"
    and h: "hd R \<noteq> CHR '')''" and bR: "before_close (\<lambda>a. a \<noteq> CHR ''('') R"
    by (auto simp: barrier_def)
  from w obtain z where z: "w = z @ ''()''"
    and bw: "before_close (\<lambda>a. a = CHR ''('' \<or> in_class numcl a) w"
    by (auto simp: good_word_def)
  from p n obtain v where v: "w = u @ v" "v \<noteq> []" "prefix v (R @ b)"
    by (metis prefix_append prefix_order.order_refl append_Nil2 prefix_def)
  from v(3) consider "prefix v R" | v' where "v = R @ v'"
    by (auto simp: prefix_append)
  then show False
  proof cases
    case 1
    then obtain y where y: "R = v @ y" by (auto simp: prefix_def)
    from ends_unit [of u v z] v z consider "v = [CHR '')'']" | v' where "v = v' @ ''()''"
      by auto
    then show False
    proof cases
      case 1
      with y h show False by simp
    next
      case 2
      with y bR show False by (simp add: preceded_append)
    qed
  next
    case 2
    then have "w = (u @ m) @ [q, CHR '')''] @ v'"
      using v(1) m(1) by simp
    with bw m(2,3) show False
      by (simp add: preceded_append)
  qed
qed

lemma barrier_inside:
  assumes w: "good_word w" and R: "barrier R" and u: "u \<noteq> []" "suffix u R"
    and p: "prefix w (u @ b)"
  shows False
proof -
  from R obtain m q where m: "R = m @ [q, CHR '')'']" "q \<noteq> CHR ''(''" "\<not> in_class numcl q"
    by (auto simp: barrier_def)
  from w have hw: "hd w \<noteq> CHR '')''"
    and bw: "before_close (\<lambda>a. a = CHR ''('' \<or> in_class numcl a) w"
    by (auto simp: good_word_def)
  from u(2) obtain x where x: "R = x @ u" by (auto simp: suffix_def)
  from p consider "prefix w u" | v where "w = u @ v"
    by (auto simp: prefix_append)
  then show False
  proof cases
    case 1
    then obtain y where "u = w @ y" by (auto simp: prefix_def)
    with x have "R = x @ w @ y" by simp
    then show False using word_in_barrier [OF w R] by blast
  next
    case 2
    have "u = [CHR '')''] \<or> (\<exists>u'. u = u' @ [q, CHR '')''])"
      using ends_unit [of x u "m @ [q]"] x m(1) u(1)
      by (cases u rule: rev_cases) (auto simp: append_eq_append_conv2 Cons_eq_append_conv
          append_eq_Cons_conv)
    then show False
    proof
      assume "u = [CHR '')'']"
      with 2 hw show False by simp
    next
      assume "\<exists>u'. u = u' @ [q, CHR '')'']"
      then obtain u' where "u = u' @ [q, CHR '')'']" ..
      with 2 have "w = u' @ [q, CHR '')''] @ v" by simp
      with bw m(2,3) show False by (simp add: preceded_append)
    qed
  qed
qed


section \<open>A substitution leaves no match behind and creates none\<close>

lemma closes_barrier: "good_pattern q \<Longrightarrow> barrier R \<Longrightarrow> closes q (R @ b)"
  unfolding closes_def good_pattern_def by (blast intro: barrier_closes)

lemma none_inside_barrier:
  "good_pattern q \<Longrightarrow> barrier R \<Longrightarrow> u \<noteq> [] \<Longrightarrow> suffix u R \<Longrightarrow> match_items q (u @ b) = None"
  unfolding good_pattern_def
  by (auto simp: match_items_None_iff dest: barrier_inside)

lemma re_sub_barrier:
  assumes q: "good_pattern q" and R: "barrier R"
  shows "re_sub q t (a @ R @ b) = re_sub q t a @ R @ re_sub q t b"
proof -
  have wf: "wf_pattern q" using q by (simp add: good_pattern_def)
  have "re_sub q t (a @ R @ b) = re_sub q t a @ re_sub q t (R @ b)"
    using re_sub_append [OF wf closes_barrier [OF q R]] .
  moreover have "re_sub q t (R @ b) = R @ re_sub q t b"
    using re_sub_skip [OF wf] none_inside_barrier [OF q R] by blast
  ultimately show ?thesis by simp
qed

lemma word_before_sub:
  assumes r: "good_rule p t" and w: "good_word w"
  shows "prefix w (u @ re_sub p t s) \<Longrightarrow> prefix w (u @ s)"
proof (induction s arbitrary: u rule: length_induct)
  case (1 s)
  have wf: "wf_pattern p" using r by (simp add: good_rule_def good_pattern_def)
  show ?case
  proof (cases "match_items p s")
    case None
    show ?thesis
    proof (cases s)
      case Nil
      with "1.prems" show ?thesis by (simp add: re_sub_Nil [OF wf])
    next
      case (Cons c s')
      with None "1.prems" have "prefix w ((u @ [c]) @ re_sub p t s')"
        by (simp add: re_sub_miss)
      moreover have "length s' < length s" using Cons by simp
      ultimately have "prefix w ((u @ [c]) @ s')"
        using "1.IH" by blast
      then show ?thesis using Cons by simp
    qed
  next
    case (Some x)
    obtain gs r' where x: "x = (gs, r')" by (cases x)
    from Some obtain w' where w': "s = w' @ r'" "parses p w' gs"
      unfolding x using match_items_SomeD [OF wf] by blast
    have "barrier (expand t gs)"
      using r w'(2) by (auto simp: good_rule_def)
    moreover have "prefix w (u @ expand t gs @ re_sub p t r')"
      using "1.prems" Some x by (simp add: re_sub_hit [OF wf])
    ultimately have "prefix w u"
      using barrier_closes [OF w] by blast
    then show ?thesis by (simp add: prefix_prefix)
  qed
qed

lemma no_match_re_sub:
  assumes q: "good_pattern q" and r: "good_rule p t"
  shows "(\<forall>u. suffix u s \<and> match_items q u \<noteq> None \<longrightarrow> match_items p u \<noteq> None) \<Longrightarrow>
         no_match q (re_sub p t s)"
proof (induction s rule: length_induct)
  case (1 s)
  have wf: "wf_pattern p" using r by (simp add: good_rule_def good_pattern_def)
  have wfq: "wf_pattern q" using q by (simp add: good_pattern_def)
  have gw: "\<And>w gs. parses q w gs \<Longrightarrow> good_word w"
    using q unfolding good_pattern_def by blast
  have sub: "\<And>s'. length s' < length s \<Longrightarrow> suffix s' s \<Longrightarrow> no_match q (re_sub p t s')"
  proof -
    fix s' assume l: "length s' < length s" and s: "suffix s' s"
    have "\<forall>u. suffix u s' \<and> match_items q u \<noteq> None \<longrightarrow> match_items p u \<noteq> None"
      using "1.prems" s by (meson suffix_order.order_trans)
    then show "no_match q (re_sub p t s')" using "1.IH" l by blast
  qed
  show ?case
  proof (cases "match_items p s")
    case None
    show ?thesis
    proof (cases s)
      case Nil
      have "match_items q [] = None"
        using wfq by (auto simp: match_items_None_iff wf_pattern_def)
      then show ?thesis
        unfolding Nil by (simp add: re_sub_Nil [OF wf] no_match_iff)
    next
      case (Cons c s')
      have tl: "no_match q (re_sub p t s')"
        using sub [of s'] Cons by (simp add: suffix_Cons)
      have "match_items q s = None"
        using "1.prems" None by blast
      then have "\<forall>w gs. parses q w gs \<longrightarrow> \<not> prefix w ([c] @ s')"
        using wfq Cons by (simp add: match_items_None_iff)
      then have "\<forall>w gs. parses q w gs \<longrightarrow> \<not> prefix w ([c] @ re_sub p t s')"
        using word_before_sub [OF r gw] by blast
      then have hd: "match_items q (c # re_sub p t s') = None"
        using wfq by (simp add: match_items_None_iff)
      have "re_sub p t s = c # re_sub p t s'"
        using None Cons by (simp add: re_sub_miss)
      with tl hd show ?thesis
        by (auto simp: no_match_iff suffix_Cons)
    qed
  next
    case (Some x)
    obtain gs r' where x: "x = (gs, r')" by (cases x)
    from Some obtain w' where w': "s = w' @ r'" "w' \<noteq> []" "parses p w' gs"
      unfolding x using match_items_SomeD [OF wf] by blast
    have b: "barrier (expand t gs)"
      using r w'(3) by (auto simp: good_rule_def)
    have tl: "no_match q (re_sub p t r')"
      using sub [of r'] w' by (simp add: suffix_def)
    have "re_sub p t s = expand t gs @ re_sub p t r'"
      using Some x by (simp add: re_sub_hit [OF wf])
    moreover have "match_items q (u @ re_sub p t r') = None" if "suffix u (expand t gs)" for u
    proof (cases "u = []")
      case True
      then show ?thesis using tl by (simp add: no_match_iff)
    next
      case False
      then show ?thesis using none_inside_barrier [OF q b] that by blast
    qed
    ultimately show ?thesis
      using tl by (auto simp: no_match_iff suffix_append)
  qed
qed

lemma no_match_self: "good_rule p t \<Longrightarrow> no_match p (re_sub p t s)"
  using no_match_re_sub [of p p t s] by (simp add: good_rule_def)

lemma no_match_kept:
  "good_pattern q \<Longrightarrow> good_rule p t \<Longrightarrow> no_match q s \<Longrightarrow> no_match q (re_sub p t s)"
proof -
  assume q: "good_pattern q" and r: "good_rule p t" and n: "no_match q s"
  from n have "\<forall>u. suffix u s \<and> match_items q u \<noteq> None \<longrightarrow> match_items p u \<noteq> None"
    by (auto simp: no_match_iff)
  then show ?thesis by (rule no_match_re_sub [OF q r])
qed


section \<open>The words of the nine patterns and their expanded templates\<close>

lemma ident_char:
  "in_class ident c \<Longrightarrow>
   c \<noteq> CHR ''('' \<and> c \<noteq> CHR '')'' \<and> c \<noteq> CHR ''.'' \<and> c \<noteq> CHR '':'' \<and> \<not> in_class numcl c"
  by (auto simp: in_class_def ident_def numcl_def)

lemma numcl_char: "in_class numcl c \<Longrightarrow> c \<noteq> CHR ''('' \<and> c \<noteq> CHR '')''"
  by (auto simp: in_class_def numcl_def)

lemma ident_set:
  "\<forall>c\<in>set g. in_class ident c \<Longrightarrow>
   CHR '')'' \<notin> set g \<and> CHR ''('' \<notin> set g \<and> CHR ''.'' \<notin> set g"
  using ident_char by blast

lemma numcl_set:
  "\<forall>c\<in>set g. in_class numcl c \<Longrightarrow> CHR '')'' \<notin> set g \<and> CHR ''('' \<notin> set g"
  using numcl_char by blast

lemma parses_pattern1:
  "parses pattern1 w gs \<longleftrightarrow>
     (\<exists>g. g \<noteq> [] \<and> (\<forall>c\<in>set g. in_class ident c) \<and>
          w = ''self.theme.scheme.'' @ g @ ''.into()'' \<and> gs = [g])"
  unfolding pattern1_def by (auto simp: parses_Lit_iff parses_Grp_iff parses_Nil_iff)

lemma parses_pattern2:
  "parses pattern2 w gs \<longleftrightarrow>
     (\<exists>g. g \<noteq> [] \<and> (\<forall>c\<in>set g. in_class ident c) \<and>
          w = ''theme.scheme.'' @ g @ ''.into()'' \<and> gs = [g])"
  unfolding pattern2_def by (auto simp: parses_Lit_iff parses_Grp_iff parses_Nil_iff)

lemma parses_pattern3:
  "parses pattern3 w gs \<longleftrightarrow>
     (\<exists>g m. g \<noteq> [] \<and> (\<forall>c\<in>set g. in_class ident c) \<and>
            m \<noteq> [] \<and> (\<forall>c\<in>set m. in_class numcl c) \<and>
            w = ''self.theme.scheme.'' @ g @ ''.scale_alpha('' @ m @ '').into()'' \<and> gs = [g, m])"
  unfolding pattern3_def by (auto simp: parses_Lit_iff parses_Grp_iff parses_Nil_iff)

lemma parses_pattern4:
  "parses pattern4 w gs \<longleftrightarrow>
     (\<exists>g m. g \<noteq> [] \<and> (\<forall>c\<in>set g. in_class ident c) \<and>
            m \<noteq> [] \<and> (\<forall>c\<in>set m. in_class numcl c) \<and>
            w = ''theme.scheme.'' @ g @ ''.scale_alpha('' @ m @ '').into()'' \<and> gs = [g, m])"
  unfolding pattern4_def by (auto simp: parses_Lit_iff parses_Grp_iff parses_Nil_iff)

lemma parses_var_pattern:
  "parses (var_pattern v) w gs \<longleftrightarrow> w = v @ ''.into()'' \<and> gs = []"
  unfolding var_pattern_def by (auto simp: parses_Lit_iff parses_Nil_iff)

lemma dot_not_ident: "\<not> in_class ident CHR ''.''"
  by (simp add: in_class_def ident_def)

lemma close_not_numcl: "\<not> in_class numcl CHR '')''"
  by (simp add: in_class_def numcl_def)

lemma wf_pattern1: "wf_pattern pattern1"
  unfolding wf_pattern_def by (simp add: parses_pattern1) (simp add: pattern1_def dot_not_ident)

lemma wf_pattern2: "wf_pattern pattern2"
  unfolding wf_pattern_def by (simp add: parses_pattern2) (simp add: pattern2_def dot_not_ident)

lemma wf_pattern3: "wf_pattern pattern3"
  unfolding wf_pattern_def
  by (simp add: parses_pattern3) (simp add: pattern3_def dot_not_ident close_not_numcl)

lemma wf_pattern4: "wf_pattern pattern4"
  unfolding wf_pattern_def
  by (simp add: parses_pattern4) (simp add: pattern4_def dot_not_ident close_not_numcl)

lemma wf_var_pattern: "wf_pattern (var_pattern v)"
  unfolding wf_pattern_def by (simp add: parses_var_pattern) (simp add: var_pattern_def)

lemma good_word_simple:
  assumes "body \<noteq> []" and "CHR '')'' \<notin> set body"
  shows "good_word (body @ ''()'')"
proof -
  have "hd (body @ ''()'') \<noteq> CHR '')''"
    using assms by (cases body) auto
  moreover have "before_close (\<lambda>a. a = CHR ''('' \<or> in_class numcl a) (body @ ''()'')"
    using assms by (simp add: preceded_append preceded_Cons preceded_free hd_append hd_free)
  ultimately show ?thesis
    unfolding good_word_def by blast
qed

lemma good_word_alpha:
  assumes "body \<noteq> []" and "CHR '')'' \<notin> set body"
    and "m \<noteq> []" and "\<forall>c\<in>set m. in_class numcl c"
  shows "good_word (body @ ''('' @ m @ '').into()'')"
proof -
  have "hd (body @ ''('' @ m @ '').into()'') \<noteq> CHR '')''"
    using assms by (cases body) auto
  moreover have "hd m \<noteq> CHR '')''" "in_class numcl (last m)" "CHR '')'' \<notin> set m"
    using assms(3,4) numcl_char by (auto simp: hd_in_set)
  then have "before_close (\<lambda>a. a = CHR ''('' \<or> in_class numcl a) (body @ ''('' @ m @ '').into()'')"
    using assms by (simp add: preceded_append preceded_Cons preceded_free hd_append hd_free)
  moreover have "body @ ''('' @ m @ '').into()'' = (body @ ''('' @ m @ '').into'') @ ''()''"
    by simp
  ultimately show ?thesis
    unfolding good_word_def by blast
qed

lemma barrier_wrap:
  assumes "inner \<noteq> []" and "CHR '')'' \<notin> set inner"
    and "last inner \<noteq> CHR ''(''" and "\<not> in_class numcl (last inner)"
  shows "barrier (''iced::Color::from('' @ inner @ '')'')"
proof -
  have "''iced::Color::from('' @ inner @ '')'' =
        (''iced::Color::from('' @ butlast inner) @ [last inner, CHR '')'']"
    using assms(1) by simp
  moreover have "before_close (\<lambda>a. a \<noteq> CHR ''('') (''iced::Color::from('' @ inner @ '')'')"
    using assms by (simp add: preceded_append preceded_Cons preceded_free hd_append hd_free)
  ultimately show ?thesis
    unfolding barrier_def using assms(3,4) by (intro conjI exI) (assumption | simp)+
qed

lemma barrier_wrap_alpha:
  assumes "CHR '')'' \<notin> set body" and "m \<noteq> []" and "\<forall>c\<in>set m. in_class numcl c"
  shows "barrier (''iced::Color::from('' @ body @ ''('' @ m @ ''))'')"
proof -
  have "''iced::Color::from('' @ body @ ''('' @ m @ ''))'' =
        (''iced::Color::from('' @ body @ ''('' @ m) @ [CHR '')'', CHR '')'']"
    by simp
  moreover have "hd m \<noteq> CHR '')''" "last m \<noteq> CHR ''(''" "CHR '')'' \<notin> set m"
    using assms(2,3) numcl_char by (auto simp: hd_in_set)
  then have "before_close (\<lambda>a. a \<noteq> CHR ''('')
       (''iced::Color::from('' @ body @ ''('' @ m @ ''))'')"
    using assms by (simp add: preceded_append preceded_Cons preceded_free hd_append hd_free)
  ultimately show ?thesis
    unfolding barrier_def using close_not_numcl
    by (intro conjI exI) (assumption | simp)+
qed


section \<open>The nine rules keep the shape\<close>

lemma good_rule1: "good_rule pattern1 replacement1"
proof -
  have "good_word w" if "parses pattern1 w gs" for w gs
  proof -
    from that obtain g where g: "g \<noteq> []" "\<forall>c\<in>set g. in_class ident c"
      "w = ''self.theme.scheme.'' @ g @ ''.into()''"
      by (auto simp: parses_pattern1)
    have "good_word ((''self.theme.scheme.'' @ g @ ''.into'') @ ''()'')"
      using ident_set [OF g(2)] by (intro good_word_simple) auto
    then show ?thesis by (simp add: g(3))
  qed
  moreover have "barrier (expand replacement1 gs)" if "parses pattern1 w gs" for w gs
  proof -
    from that obtain g where g: "g \<noteq> []" "\<forall>c\<in>set g. in_class ident c" "gs = [g]"
      by (auto simp: parses_pattern1)
    have "in_class ident (last g)" using g(1,2) by simp
    then have "barrier (''iced::Color::from('' @ (''self.theme.scheme.'' @ g) @ '')'')"
      using ident_set [OF g(2)] g(1) ident_char by (intro barrier_wrap) auto
    then show ?thesis by (simp add: g(3) replacement1_def)
  qed
  ultimately show ?thesis
    unfolding good_rule_def good_pattern_def using wf_pattern1 by blast
qed

lemma good_rule2: "good_rule pattern2 replacement2"
proof -
  have "good_word w" if "parses pattern2 w gs" for w gs
  proof -
    from that obtain g where g: "g \<noteq> []" "\<forall>c\<in>set g. in_class ident c"
      "w = ''theme.scheme.'' @ g @ ''.into()''"
      by (auto simp: parses_pattern2)
    have "good_word ((''theme.scheme.'' @ g @ ''.into'') @ ''()'')"
      using ident_set [OF g(2)] by (intro good_word_simple) auto
    then show ?thesis by (simp add: g(3))
  qed
  moreover have "barrier (expand replacement2 gs)" if "parses pattern2 w gs" for w gs
  proof -
    from that obtain g where g: "g \<noteq> []" "\<forall>c\<in>set g. in_class ident c" "gs = [g]"
      by (auto simp: parses_pattern2)
    have "in_class ident (last g)" using g(1,2) by simp
    then have "barrier (''iced::Color::from('' @ (''theme.scheme.'' @ g) @ '')'')"
      using ident_set [OF g(2)] g(1) ident_char by (intro barrier_wrap) auto
    then show ?thesis by (simp add: g(3) replacement2_def)
  qed
  ultimately show ?thesis
    unfolding good_rule_def good_pattern_def using wf_pattern2 by blast
qed

lemma good_rule3: "good_rule pattern3 replacement3"
proof -
  have "good_word w" if "parses pattern3 w gs" for w gs
  proof -
    from that obtain g m where g: "g \<noteq> []" "\<forall>c\<in>set g. in_class ident c"
      "m \<noteq> []" "\<forall>c\<in>set m. in_class numcl c"
      "w = ''self.theme.scheme.'' @ g @ ''.scale_alpha('' @ m @ '').into()''"
      by (auto simp: parses_pattern3)
    have "good_word ((''self.theme.scheme.'' @ g @ ''.scale_alpha'') @ ''('' @ m @ '').into()'')"
      using ident_set [OF g(2)] g(3,4) by (intro good_word_alpha) auto
    then show ?thesis by (simp add: g(5))
  qed
  moreover have "barrier (expand replacement3 gs)" if "parses pattern3 w gs" for w gs
  proof -
    from that obtain g m where g: "g \<noteq> []" "\<forall>c\<in>set g. in_class ident c"
      "m \<noteq> []" "\<forall>c\<in>set m. in_class numcl c" "gs = [g, m]"
      by (auto simp: parses_pattern3)
    have "barrier (''iced::Color::from('' @ (''self.theme.scheme.'' @ g @ ''.scale_alpha'') @
            ''('' @ m @ ''))'')"
      using ident_set [OF g(2)] g(3,4) by (intro barrier_wrap_alpha) auto
    then show ?thesis by (simp add: g(5) replacement3_def)
  qed
  ultimately show ?thesis
    unfolding good_rule_def good_pattern_def using wf_pattern3 by blast
qed

lemma good_rule4: "good_rule pattern4 replacement4"
proof -
  have "good_word w" if "parses pattern4 w gs" for w gs
  proof -
    from that obtain g m where g: "g \<noteq> []" "\<forall>c\<in>set g. in_class ident c"
      "m \<noteq> []" "\<forall>c\<in>set m. in_class numcl c"
      "w = ''theme.scheme.'' @ g @ ''.scale_alpha('' @ m @ '').into()''"
      by (auto simp: parses_pattern4)
    have "good_word ((''theme.scheme.'' @ g @ ''.scale_alpha'') @ ''('' @ m @ '').into()'')"
      using ident_set [OF g(2)] g(3,4) by (intro good_word_alpha) auto
    then show ?thesis by (simp add: g(5))
  qed
  moreover have "barrier (expand replacement4 gs)" if "parses pattern4 w gs" for w gs
  proof -
    from that obtain g m where g: "g \<noteq> []" "\<forall>c\<in>set g. in_class ident c"
      "m \<noteq> []" "\<forall>c\<in>set m. in_class numcl c" "gs = [g, m]"
      by (auto simp: parses_pattern4)
    have "barrier (''iced::Color::from('' @ (''theme.scheme.'' @ g @ ''.scale_alpha'') @
            ''('' @ m @ ''))'')"
      using ident_set [OF g(2)] g(3,4) by (intro barrier_wrap_alpha) auto
    then show ?thesis by (simp add: g(5) replacement4_def)
  qed
  ultimately show ?thesis
    unfolding good_rule_def good_pattern_def using wf_pattern4 by blast
qed

lemma good_rule_var: "var_ok v \<Longrightarrow> good_rule (var_pattern v) (var_replacement v)"
proof -
  assume v: "var_ok v"
  have "good_word ((v @ ''.into'') @ ''()'')"
    using v by (intro good_word_simple) (auto simp: var_ok_def)
  then have "good_word w" if "parses (var_pattern v) w gs" for w gs
    using that by (simp add: parses_var_pattern)
  moreover have "barrier (''iced::Color::from('' @ v @ '')'')"
    using v by (intro barrier_wrap) (auto simp: var_ok_def)
  then have "barrier (expand (var_replacement v) gs)" if "parses (var_pattern v) w gs" for w gs
    by (simp add: var_replacement_def)
  ultimately show ?thesis
    unfolding good_rule_def good_pattern_def using wf_var_pattern by blast
qed

lemma color_vars_ok: "\<forall>v\<in>set color_vars. var_ok v"
  by (simp add: color_vars_def var_ok_def in_class_def numcl_def)

lemma good_rules: "\<forall>(p, t)\<in>set rules. good_rule p t"
  using good_rule1 good_rule2 good_rule3 good_rule4 good_rule_var color_vars_ok
  by (auto simp: rules_def)

lemma rewrite_content_rules: "rewrite_content s = apply_rules rules s"
  by (simp add: rewrite_content_def apply_rules_def rules_def foldl_map Let_def)

lemma no_match_apply_rules:
  "\<forall>(p, t)\<in>set rs. good_rule p t \<Longrightarrow> \<forall>(q, t)\<in>set rs. no_match q (apply_rules rs s)"
proof (induction rs rule: rev_induct)
  case Nil
  then show ?case by simp
next
  case (snoc r rs)
  obtain p t where r: "r = (p, t)" by (cases r)
  have gr: "good_rule p t" using snoc.prems r by simp
  have step: "apply_rules (rs @ [r]) s = re_sub p t (apply_rules rs s)"
    by (simp add: apply_rules_def r)
  have "no_match p (apply_rules (rs @ [r]) s)"
    unfolding step by (rule no_match_self [OF gr])
  moreover have "no_match q (apply_rules (rs @ [r]) s)" if "(q, t') \<in> set rs" for q t'
  proof -
    have "good_pattern q" using snoc.prems that by (auto simp: good_rule_def)
    moreover have "no_match q (apply_rules rs s)" using snoc.IH snoc.prems that by auto
    ultimately show ?thesis unfolding step using gr by (intro no_match_kept)
  qed
  ultimately show ?case by (auto simp: r)
qed

lemma apply_rules_fixed:
  "\<forall>(p, t)\<in>set rs. wf_pattern p \<and> no_match p s \<Longrightarrow> apply_rules rs s = s"
  by (induction rs rule: rev_induct) (auto simp: apply_rules_def re_sub_no_match)


lemma parses_group_count: "parses p w gs \<Longrightarrow> length gs = group_count p"
  by (induction rule: parses.induct) simp_all

lemma refs_in_range: "\<forall>(p, t)\<in>set rules. \<forall>n\<in>set (refs t). 0 < n \<and> n \<le> group_count p"
  by (simp add: rules_def color_vars_def pattern1_def pattern2_def pattern3_def pattern4_def
      replacement1_def replacement2_def replacement3_def replacement4_def
      var_pattern_def var_replacement_def)


lemma no_into:
  assumes "preceded CHR ''('' (\<lambda>a. a \<noteq> CHR ''o'') R"
  shows "\<not> sublist ''.into('' R"
proof
  assume "sublist ''.into('' R"
  then obtain x y where "R = x @ ''.into('' @ y"
    by (auto simp: sublist_def)
  with assms show False
    by (simp add: preceded_append)
qed

lemma no_into_rules:
  assumes "(p, t) \<in> set rules" and "parses p w gs"
  shows "\<not> sublist ''.into('' (expand t gs)"
proof -
  have simple: "preceded CHR ''('' (\<lambda>a. a \<noteq> CHR ''o'') (''iced::Color::from('' @ x @ '')'')"
    if "CHR ''('' \<notin> set x" for x
    using that by (simp add: preceded_append preceded_Cons preceded_free hd_append hd_free)
  have alpha: "preceded CHR ''('' (\<lambda>a. a \<noteq> CHR ''o'')
      (''iced::Color::from('' @ x @ ''.scale_alpha('' @ m @ ''))'')"
    if "CHR ''('' \<notin> set x" "CHR ''('' \<notin> set m" for x m
    using that by (simp add: preceded_append preceded_Cons preceded_free hd_append hd_free)
  from assms(1) consider "p = pattern1" "t = replacement1" | "p = pattern2" "t = replacement2"
    | "p = pattern3" "t = replacement3" | "p = pattern4" "t = replacement4"
    | v where "v \<in> set color_vars" "p = var_pattern v" "t = var_replacement v"
    by (auto simp: rules_def)
  then have "preceded CHR ''('' (\<lambda>a. a \<noteq> CHR ''o'') (expand t gs)"
  proof cases
    case 1
    with assms(2) obtain g where "\<forall>c\<in>set g. in_class ident c" "gs = [g]"
      by (auto simp: parses_pattern1)
    then show ?thesis
      using simple [of "''self.theme.scheme.'' @ g"] ident_set [of g]
      by (simp add: 1 replacement1_def)
  next
    case 2
    with assms(2) obtain g where "\<forall>c\<in>set g. in_class ident c" "gs = [g]"
      by (auto simp: parses_pattern2)
    then show ?thesis
      using simple [of "''theme.scheme.'' @ g"] ident_set [of g]
      by (simp add: 2 replacement2_def)
  next
    case 3
    with assms(2) obtain g m where "\<forall>c\<in>set g. in_class ident c"
      "\<forall>c\<in>set m. in_class numcl c" "gs = [g, m]"
      by (auto simp: parses_pattern3)
    then show ?thesis
      using alpha [of "''self.theme.scheme.'' @ g" m] ident_set [of g] numcl_set [of m]
      by (simp add: 3 replacement3_def)
  next
    case 4
    with assms(2) obtain g m where "\<forall>c\<in>set g. in_class ident c"
      "\<forall>c\<in>set m. in_class numcl c" "gs = [g, m]"
      by (auto simp: parses_pattern4)
    then show ?thesis
      using alpha [of "''theme.scheme.'' @ g" m] ident_set [of g] numcl_set [of m]
      by (simp add: 4 replacement4_def)
  next
    case 5
    have "CHR ''('' \<notin> set v"
      using 5(1) by (auto simp: color_vars_def)
    then show ?thesis
      using simple [of v] by (simp add: 5 var_replacement_def)
  qed
  then show ?thesis by (rule no_into)
qed


section \<open>The loop over the files\<close>

lemma fix_color_conversions_error:
  "fix_color_conversions p w = (Inl e, w') \<Longrightarrow>
   w' = w \<and> (e = ReadError p \<or> e = DecodeError p \<or> e = WriteError p)"
  by (auto simp: fix_color_conversions_def Let_def split: option.splits if_splits)

lemma fix_color_conversions_other:
  "fix_color_conversions p w = (r, w') \<Longrightarrow> q \<noteq> p \<Longrightarrow> files w' q = files w q"
  by (auto simp: fix_color_conversions_def Let_def split: option.splits if_splits)

lemma fix_color_conversions_tally:
  "fix_color_conversions p w = (Inr changed, w') \<Longrightarrow>
   length (writes w') = length (writes w) + (if changed then 1 else 0)"
  by (auto simp: fix_color_conversions_def Let_def split: option.splits if_splits)

lemma main_loop_append:
  "main_loop pre n w = (Inr m, w1) \<Longrightarrow> main_loop (pre @ rest) n w = main_loop rest m w1"
proof (induction pre arbitrary: n w)
  case Nil
  then show ?case by simp
next
  case (Cons p pre)
  then show ?case
    by (cases "fix_color_conversions p w") (auto split: sum.splits)
qed

lemma main_loop_other:
  "main_loop ps n w = (r, w') \<Longrightarrow> q \<notin> set ps \<Longrightarrow> files w' q = files w q"
proof (induction ps arbitrary: n w)
  case Nil
  then show ?case by simp
next
  case (Cons p ps)
  obtain r1 w1 where f: "fix_color_conversions p w = (r1, w1)"
    by (cases "fix_color_conversions p w")
  have o: "files w1 q = files w q"
    using fix_color_conversions_other [OF f] Cons.prems(2) by simp
  show ?case
  proof (cases r1)
    case (Inl e)
    with Cons.prems(1) f o show ?thesis by simp
  next
    case (Inr changed)
    with Cons.prems f have "main_loop ps (if changed then n + 1 else n) w1 = (r, w')"
      by simp
    then have "files w' q = files w1 q"
      using Cons.IH Cons.prems(2) by simp
    with o show ?thesis by simp
  qed
qed

lemma main_loop_tally:
  "main_loop ps n w = (Inr m, w') \<Longrightarrow> m + length (writes w) = n + length (writes w')"
proof (induction ps arbitrary: n w)
  case Nil
  then show ?case by simp
next
  case (Cons p ps)
  obtain r1 w1 where f: "fix_color_conversions p w = (r1, w1)"
    by (cases "fix_color_conversions p w")
  show ?case
  proof (cases r1)
    case (Inl e)
    with Cons.prems f show ?thesis by simp
  next
    case (Inr changed)
    with Cons.prems f have "main_loop ps (if changed then n + 1 else n) w1 = (Inr m, w')"
      by simp
    then have "m + length (writes w1) = (if changed then n + 1 else n) + length (writes w')"
      by (rule Cons.IH)
    moreover have "length (writes w1) = length (writes w) + (if changed then 1 else 0)"
      using fix_color_conversions_tally f Inr by simp
    ultimately show ?thesis by (simp split: if_splits)
  qed
qed


section \<open>The script on small inputs\<close>

lemma rewrite_a: "rewrite_content ''let c = border_color.into();'' =
    ''let c = iced::Color::from(border_color);''"
  by code_simp

lemma rewrite_b: "rewrite_content ''fn main() {}'' = ''fn main() {}''"
  by code_simp

lemma rewrite_d: "rewrite_content ''text_color.into()'' = ''iced::Color::from(text_color)''"
  by code_simp

lemma rewrite_no_match:
  "\<forall>(q, t)\<in>set rules. no_match q c \<Longrightarrow> rewrite_content c = c"
proof -
  assume "\<forall>(q, t)\<in>set rules. no_match q c"
  moreover have "\<forall>(q, t)\<in>set rules. wf_pattern q"
    using good_rules by (auto simp: good_rule_def good_pattern_def)
  ultimately have "apply_rules rules c = c"
    by (intro apply_rules_fixed) auto
  then show ?thesis by (simp add: rewrite_content_rules)
qed

lemma loop_ab:
  "main_loop [''a.rs'', ''b.rs''] 0 example_world =
     (Inr 1,
      example_world
        \<lparr>files := (files example_world)
           (''a.rs'' \<mapsto> plain_file ''let c = iced::Color::from(border_color);''),
         writes := [''a.rs''],
         stdout := [''Fixed color conversions in a.rs'']\<rparr>)"
  by (simp add: fix_color_conversions_def example_world_def plain_file_def rewrite_a rewrite_b)


section \<open>Words with a single pair of parentheses\<close>

lemma simple_prefix:
  assumes "simple_word w" and "prefix w T"
  shows "w = takeWhile no_paren T @ ''()'' \<and> prefix ''()'' (dropWhile no_paren T)"
proof -
  from assms obtain body r where b: "\<forall>c\<in>set body. no_paren c" "w = body @ ''()''"
    and T: "T = body @ CHR ''('' # CHR '')'' # r"
    by (auto simp: simple_word_def prefix_def)
  have "\<not> no_paren CHR ''(''" by (simp add: no_paren_def)
  then have "takeWhile no_paren T = body" "dropWhile no_paren T = CHR ''('' # CHR '')'' # r"
    unfolding T using takeWhile_run [OF b(1)] dropWhile_run [OF b(1)] by blast+
  then show ?thesis using b(2) by simp
qed

lemma simple_none:
  assumes "simple_pattern p"
    and "\<not> prefix ''()'' (dropWhile no_paren T) \<or> (\<forall>gs. \<not> parses p (takeWhile no_paren T @ ''()'') gs)"
  shows "match_items p T = None"
proof -
  have wf: "wf_pattern p" using assms(1) by (simp add: simple_pattern_def)
  have "\<not> prefix w T" if "parses p w gs" for w gs
  proof
    assume "prefix w T"
    moreover have "simple_word w" using assms(1) that unfolding simple_pattern_def by blast
    ultimately have "w = takeWhile no_paren T @ ''()''" "prefix ''()'' (dropWhile no_paren T)"
      using simple_prefix by blast+
    with assms(2) that show False by blast
  qed
  then show ?thesis by (simp add: match_items_None_iff [OF wf])
qed

lemma split_first_paren:
  assumes "\<not> (\<forall>c\<in>set u. no_paren c)"
  shows "\<exists>b c u'. u = b @ c # u' \<and> (\<forall>x\<in>set b. no_paren x) \<and> \<not> no_paren c"
proof -
  from assms obtain c where "c \<in> set u" "\<not> no_paren c" by blast
  then have "\<exists>x\<in>set u. \<not> no_paren x" by blast
  then obtain b c u' where "u = b @ c # u'" "\<not> no_paren c" "\<forall>x\<in>set b. \<not> \<not> no_paren x"
    using split_list_first_prop [of u "\<lambda>x. \<not> no_paren x"] by blast
  then show ?thesis by auto
qed

lemma closes_simple:
  assumes sp: "simple_pattern p" and Y: "Y \<noteq> []" "hd Y \<noteq> CHR '')''"
    and free: "\<And>u w gs. u \<noteq> [] \<Longrightarrow> \<forall>c\<in>set u. no_paren c \<Longrightarrow> parses p w gs \<Longrightarrow>
                 prefix w (u @ Y) \<Longrightarrow> prefix w u"
  shows "closes p Y"
  unfolding closes_def
proof (intro allI impI)
  fix u w gs
  assume a: "u \<noteq> [] \<and> parses p w gs \<and> prefix w (u @ Y)"
  then have sw: "simple_word w" using sp unfolding simple_pattern_def by blast
  show "prefix w u"
  proof (cases "\<forall>c\<in>set u. no_paren c")
    case True
    then show ?thesis using free a by blast
  next
    case False
    then obtain b c u' where u: "u = b @ c # u'" and b: "\<forall>x\<in>set b. no_paren x"
      and c: "\<not> no_paren c"
      using split_first_paren by blast
    have tk: "takeWhile no_paren (u @ Y) = b"
      using takeWhile_run [OF b c, of "u' @ Y"] by (simp add: u)
    have dr: "dropWhile no_paren (u @ Y) = c # u' @ Y"
      using dropWhile_run [OF b c, of "u' @ Y"] by (simp add: u)
    have pw: "prefix w (u @ Y)" using a by simp
    have w: "w = b @ ''()''" and pu: "prefix ''()'' (c # u' @ Y)"
      using simple_prefix [OF sw pw] unfolding tk dr by simp_all
    from pu have c': "c = CHR ''(''" and p2: "prefix '')'' (u' @ Y)" by simp_all
    have "u' \<noteq> []"
    proof
      assume "u' = []"
      with p2 Y show False by (cases Y) auto
    qed
    then obtain u'' where "u' = CHR '')'' # u''"
      using p2 by (cases u') auto
    then have "u = w @ u''" using u w c' by simp
    then show ?thesis by simp
  qed
qed

lemma first_occurrence:
  "x \<notin> set xs \<Longrightarrow> x \<notin> set xs' \<Longrightarrow> xs @ x # ys = xs' @ x # ys' \<Longrightarrow> xs = xs' \<and> ys = ys'"
proof (induction xs arbitrary: xs')
  case Nil
  then show ?case by (cases xs') auto
next
  case (Cons a xs)
  then show ?case by (cases xs') auto
qed

lemma last_dot:
  assumes "A @ [CHR ''.''] @ g' = u @ A @ [CHR ''.''] @ g"
    and "CHR ''.'' \<notin> set g" and "CHR ''.'' \<notin> set g'"
  shows "u = []"
proof -
  have "rev (A @ [CHR ''.''] @ g') = rev (u @ A @ [CHR ''.''] @ g)"
    using assms(1) by simp
  then have "rev g' @ CHR ''.'' # rev A = rev g @ CHR ''.'' # (rev A @ rev u)"
    by simp
  moreover have "CHR ''.'' \<notin> set (rev g)" "CHR ''.'' \<notin> set (rev g')"
    using assms(2,3) by simp_all
  ultimately have "rev A = rev A @ rev u"
    using first_occurrence [where x = "CHR ''.''" and xs = "rev g'" and xs' = "rev g"
        and ys = "rev A" and ys' = "rev A @ rev u"] by simp
  then show ?thesis by simp
qed


section \<open>The patterns without \<open>scale_alpha\<close> pass over a \<open>scale_alpha\<close> call\<close>

lemma ident_no_paren: "\<forall>c\<in>set g. in_class ident c \<Longrightarrow> \<forall>c\<in>set g. no_paren c"
  using ident_char by (auto simp: no_paren_def)

lemma numcl_no_paren: "\<forall>c\<in>set m. in_class numcl c \<Longrightarrow> \<forall>c\<in>set m. no_paren c"
  using numcl_char by (auto simp: no_paren_def)

lemma simple_pattern1: "simple_pattern pattern1"
proof -
  have "simple_word w" if "parses pattern1 w gs" for w gs
  proof -
    from that obtain g where g: "\<forall>c\<in>set g. in_class ident c"
      "w = ''self.theme.scheme.'' @ g @ ''.into()''"
      by (auto simp: parses_pattern1)
    have "w = (''self.theme.scheme.'' @ g @ ''.into'') @ ''()''" using g(2) by simp
    moreover have "\<forall>c\<in>set (''self.theme.scheme.'' @ g @ ''.into''). no_paren c"
      using ident_no_paren [OF g(1)] by (auto simp: no_paren_def)
    ultimately show ?thesis unfolding simple_word_def by blast
  qed
  then show ?thesis unfolding simple_pattern_def using wf_pattern1 by blast
qed

lemma simple_pattern2: "simple_pattern pattern2"
proof -
  have "simple_word w" if "parses pattern2 w gs" for w gs
  proof -
    from that obtain g where g: "\<forall>c\<in>set g. in_class ident c"
      "w = ''theme.scheme.'' @ g @ ''.into()''"
      by (auto simp: parses_pattern2)
    have "w = (''theme.scheme.'' @ g @ ''.into'') @ ''()''" using g(2) by simp
    moreover have "\<forall>c\<in>set (''theme.scheme.'' @ g @ ''.into''). no_paren c"
      using ident_no_paren [OF g(1)] by (auto simp: no_paren_def)
    ultimately show ?thesis unfolding simple_word_def by blast
  qed
  then show ?thesis unfolding simple_pattern_def using wf_pattern2 by blast
qed

text \<open>The text in front of the first parenthesis, when a simple pattern matches.\<close>

lemma takeWhile_no_paren_open:
  "\<forall>c\<in>set x. no_paren c \<Longrightarrow> takeWhile no_paren (x @ CHR ''('' # z) = x"
  by (rule takeWhile_run) (simp_all add: no_paren_def)

lemma dropWhile_no_paren_open:
  "\<forall>c\<in>set x. no_paren c \<Longrightarrow> dropWhile no_paren (x @ CHR ''('' # z) = CHR ''('' # z"
  by (rule dropWhile_run) (simp_all add: no_paren_def)

lemma dropWhile_no_paren_close:
  "\<forall>c\<in>set x. no_paren c \<Longrightarrow> dropWhile no_paren (x @ CHR '')'' # z) = CHR '')'' # z"
  by (rule dropWhile_run) (simp_all add: no_paren_def)

lemma none_before_arg:
  assumes "simple_pattern p" and "\<forall>c\<in>set x. no_paren c" and "m \<noteq> []"
    and "\<forall>c\<in>set m. in_class numcl c"
  shows "match_items p (x @ CHR ''('' # m @ z) = None"
proof -
  have "hd m \<noteq> CHR '')''" using assms(3,4) numcl_char by (cases m) auto
  then have "\<not> prefix ''()'' (CHR ''('' # m @ z)"
    using assms(3) by (cases m) auto
  then show ?thesis
    using simple_none [OF assms(1)] dropWhile_no_paren_open [OF assms(2)] by simp
qed

lemma none_before_close:
  assumes "simple_pattern p" and "\<forall>c\<in>set x. no_paren c"
  shows "match_items p (x @ CHR '')'' # z) = None"
  using simple_none [OF assms(1)] dropWhile_no_paren_close [OF assms(2)] by simp

lemma none_short:
  assumes "simple_pattern p" and "\<forall>c\<in>set x. no_paren c"
    and "\<forall>gs. \<not> parses p (x @ ''()'') gs"
  shows "match_items p (x @ ''()'' @ z) = None"
  using simple_none [OF assms(1), of "x @ ''()'' @ z"]
    takeWhile_no_paren_open [OF assms(2), of "CHR '')'' # z"] assms(3) by simp

text \<open>
  A simple pattern whose words are longer than \<open>.into()\<close> finds nothing in
  \<open>x(m).into()\<close> when \<open>x\<close> has no parenthesis and \<open>m\<close> is a numeric argument.
\<close>

lemma re_sub_skip_alpha:
  assumes sp: "simple_pattern p" and long: "\<And>w gs. parses p w gs \<Longrightarrow> 7 < length w"
    and x: "\<forall>c\<in>set x. no_paren c" and m: "m \<noteq> []" "\<forall>c\<in>set m. in_class numcl c"
  shows "re_sub p t (x @ ''('' @ m @ '').into()'' @ y) = x @ ''('' @ m @ '').into()'' @ re_sub p t y"
proof -
  have wf: "wf_pattern p" using sp by (simp add: simple_pattern_def)
  have 1: "re_sub p t ((x @ ''('') @ m @ '').into()'' @ y) =
           (x @ ''('') @ re_sub p t (m @ '').into()'' @ y)"
  proof (rule re_sub_skip [OF wf], intro allI impI)
    fix u assume "u \<noteq> [] \<and> suffix u (x @ ''('')"
    then obtain u' where "suffix u' x" "u = u' @ ''(''"
      by (auto simp: suffix_append suffix_Cons)
    then have "\<forall>c\<in>set u'. no_paren c" "u @ m @ '').into()'' @ y = u' @ CHR ''('' # m @ '').into()'' @ y"
      using x by (auto dest: set_mono_suffix)
    then show "match_items p (u @ m @ '').into()'' @ y) = None"
      using none_before_arg [OF sp _ m] by simp
  qed
  have 2: "re_sub p t ((m @ '')'') @ ''.into()'' @ y) = (m @ '')'') @ re_sub p t (''.into()'' @ y)"
  proof (rule re_sub_skip [OF wf], intro allI impI)
    fix u assume "u \<noteq> [] \<and> suffix u (m @ '')'')"
    then obtain u' where "suffix u' m" "u = u' @ '')''"
      by (auto simp: suffix_append suffix_Cons)
    then have "\<forall>c\<in>set u'. no_paren c" "u @ ''.into()'' @ y = u' @ CHR '')'' # ''.into()'' @ y"
      using numcl_no_paren [OF m(2)] by (auto dest: set_mono_suffix)
    then show "match_items p (u @ ''.into()'' @ y) = None"
      using none_before_close [OF sp] by simp
  qed
  have short: "match_items p (k @ ''()'' @ y) = None"
    if "\<forall>c\<in>set k. no_paren c" "length k \<le> 5" for k
  proof (rule none_short [OF sp that(1)], intro allI notI)
    fix gs assume "parses p (k @ ''()'') gs"
    then have "7 < length (k @ ''()'')" by (rule long)
    with that(2) show False by simp
  qed
  have 3: "re_sub p t (''.into()'' @ y) = ''.into()'' @ re_sub p t y"
  proof (rule re_sub_skip [OF wf], intro allI impI)
    fix u assume u: "u \<noteq> [] \<and> suffix u ''.into()''"
    then consider "u = ''.into()''" | "u = ''into()''" | "u = ''nto()''" | "u = ''to()''"
      | "u = ''o()''" | "u = ''()''" | "u = '')''"
      by (auto simp: suffix_Cons)
    then show "match_items p (u @ y) = None"
    proof cases
      case 1 then show ?thesis using short [of "''.into''"] by (simp add: no_paren_def)
    next
      case 2 then show ?thesis using short [of "''into''"] by (simp add: no_paren_def)
    next
      case 3 then show ?thesis using short [of "''nto''"] by (simp add: no_paren_def)
    next
      case 4 then show ?thesis using short [of "''to''"] by (simp add: no_paren_def)
    next
      case 5 then show ?thesis using short [of "''o''"] by (simp add: no_paren_def)
    next
      case 6 then show ?thesis using short [of "[]"] by simp
    next
      case 7 then show ?thesis using none_before_close [OF sp, of "[]" y] by simp
    qed
  qed
  show ?thesis using 1 2 3 by simp
qed

lemma closes_alpha:
  assumes sp: "simple_pattern p" and x: "x \<noteq> []" "\<forall>c\<in>set x. no_paren c"
    and m: "m \<noteq> []" "\<forall>c\<in>set m. in_class numcl c"
  shows "closes p (x @ ''('' @ m @ z)"
proof (rule closes_simple [OF sp])
  show "x @ ''('' @ m @ z \<noteq> []" using x by simp
  show "hd (x @ ''('' @ m @ z) \<noteq> CHR '')''"
    using x by (cases x) (auto simp: no_paren_def)
next
  fix u w gs
  assume u: "\<forall>c\<in>set u. no_paren c" and w: "parses p w gs"
    and p: "prefix w (u @ x @ ''('' @ m @ z)"
  have wf: "wf_pattern p" using sp by (simp add: simple_pattern_def)
  have "match_items p ((u @ x) @ CHR ''('' # m @ z) = None"
    using u x(2) by (intro none_before_arg [OF sp _ m]) auto
  then have "\<not> prefix w ((u @ x) @ CHR ''('' # m @ z)"
    using w unfolding match_items_None_iff [OF wf] by blast
  then have False
    using p by simp
  then show "prefix w u" ..
qed

lemma re_sub_frame_alpha:
  assumes sp: "simple_pattern p" and long: "\<And>w gs. parses p w gs \<Longrightarrow> 7 < length w"
    and x: "x \<noteq> []" "\<forall>c\<in>set x. no_paren c" and m: "m \<noteq> []" "\<forall>c\<in>set m. in_class numcl c"
  shows "re_sub p t (a @ x @ ''('' @ m @ '').into()'' @ b) =
         re_sub p t a @ x @ ''('' @ m @ '').into()'' @ re_sub p t b"
proof -
  have wf: "wf_pattern p" using sp by (simp add: simple_pattern_def)
  have "re_sub p t (a @ x @ ''('' @ m @ '').into()'' @ b) =
        re_sub p t a @ re_sub p t (x @ ''('' @ m @ '').into()'' @ b)"
    by (rule re_sub_append [OF wf closes_alpha [OF sp x m]])
  then show ?thesis
    using re_sub_skip_alpha [OF sp long x(2) m] by simp
qed


section \<open>An occurrence is matched where it stands\<close>

lemma long_pattern1: "parses pattern1 w gs \<Longrightarrow> 7 < length w"
  by (auto simp: parses_pattern1)

lemma long_pattern2: "parses pattern2 w gs \<Longrightarrow> 7 < length w"
  by (auto simp: parses_pattern2)

lemma closes_occurrence1:
  assumes g: "g \<noteq> []" "\<forall>c\<in>set g. in_class ident c"
  shows "closes pattern1 (''self.theme.scheme.'' @ g @ ''.into()'' @ y)"
proof (rule closes_simple [OF simple_pattern1])
  show "''self.theme.scheme.'' @ g @ ''.into()'' @ y \<noteq> []" by simp
  show "hd (''self.theme.scheme.'' @ g @ ''.into()'' @ y) \<noteq> CHR '')''" by simp
next
  fix u w gs
  assume u: "u \<noteq> []" "\<forall>c\<in>set u. no_paren c" and w: "parses pattern1 w gs"
    and p: "prefix w (u @ ''self.theme.scheme.'' @ g @ ''.into()'' @ y)"
  let ?x = "u @ ''self.theme.scheme.'' @ g @ ''.into''"
  have x: "\<forall>c\<in>set ?x. no_paren c"
    using u(2) ident_no_paren [OF g(2)] by (auto simp: no_paren_def)
  have T: "u @ ''self.theme.scheme.'' @ g @ ''.into()'' @ y = ?x @ CHR ''('' # CHR '')'' # y"
    by simp
  have sw: "simple_word w"
    using simple_pattern1 w unfolding simple_pattern_def by blast
  have "w = ?x @ ''()''"
    using simple_prefix [OF sw p] unfolding T takeWhile_no_paren_open [OF x] by simp
  moreover from w obtain g' where g': "\<forall>c\<in>set g'. in_class ident c"
    "w = ''self.theme.scheme.'' @ g' @ ''.into()''"
    by (auto simp: parses_pattern1)
  ultimately have "''self.theme.scheme'' @ [CHR ''.''] @ g' = u @ ''self.theme.scheme'' @ [CHR ''.''] @ g"
    by simp
  from last_dot [OF this] ident_set [OF g(2)] ident_set [OF g'(1)] have "u = []"
    by blast
  with u(1) show "prefix w u" by simp
qed

lemma closes_occurrence3:
  assumes g: "g \<noteq> []" "\<forall>c\<in>set g. in_class ident c"
    and m: "m \<noteq> []" "\<forall>c\<in>set m. in_class numcl c"
  shows "closes pattern3 (''self.theme.scheme.'' @ g @ ''.scale_alpha('' @ m @ '').into()'' @ y)"
  unfolding closes_def
proof (intro allI impI)
  fix u w gs
  let ?occ = "''self.theme.scheme.'' @ g @ ''.scale_alpha('' @ m @ '').into()'' @ y"
  assume a: "u \<noteq> [] \<and> parses pattern3 w gs \<and> prefix w (u @ ?occ)"
  then obtain g' m' where g': "\<forall>c\<in>set g'. in_class ident c"
    and m': "\<forall>c\<in>set m'. in_class numcl c"
    and w: "w = ''self.theme.scheme.'' @ g' @ ''.scale_alpha('' @ m' @ '').into()''"
    by (auto simp: parses_pattern3)
  let ?body = "''self.theme.scheme.'' @ g' @ ''.scale_alpha''"
  let ?k = "m' @ '').into()''"
  have body: "\<forall>c\<in>set ?body. no_paren c"
    using ident_no_paren [OF g'] by (auto simp: no_paren_def)
  from a obtain r where T: "u @ ?occ = ?body @ CHR ''('' # ?k @ r"
    unfolding w by (auto simp: prefix_def)
  have tk: "takeWhile no_paren (u @ ?occ) = ?body"
    and dr: "dropWhile no_paren (u @ ?occ) = CHR ''('' # ?k @ r"
    unfolding T using takeWhile_no_paren_open [OF body] dropWhile_no_paren_open [OF body]
    by blast+
  show "prefix w u"
  proof (cases "\<forall>c\<in>set u. no_paren c")
    case True
    let ?x = "u @ ''self.theme.scheme.'' @ g @ ''.scale_alpha''"
    have "\<forall>c\<in>set ?x. no_paren c"
      using True ident_no_paren [OF g(2)] by (auto simp: no_paren_def)
    then have "takeWhile no_paren (?x @ CHR ''('' # m @ '').into()'' @ y) = ?x"
      by (rule takeWhile_no_paren_open)
    then have "?x = ?body" using tk by simp
    then have "''self.theme.scheme'' @ [CHR ''.''] @ g' = u @ ''self.theme.scheme'' @ [CHR ''.''] @ g"
      by simp
    from last_dot [OF this] ident_set [OF g(2)] ident_set [OF g'] have "u = []"
      by blast
    with a show ?thesis by simp
  next
    case False
    then obtain b c u' where u: "u = b @ c # u'" and b: "\<forall>x\<in>set b. no_paren x"
      and c: "\<not> no_paren c"
      using split_first_paren by blast
    have "takeWhile no_paren (u @ ?occ) = b"
      using takeWhile_run [OF b c, of "u' @ ?occ"] by (simp add: u)
    moreover have "dropWhile no_paren (u @ ?occ) = c # u' @ ?occ"
      using dropWhile_run [OF b c, of "u' @ ?occ"] by (simp add: u)
    ultimately have bb: "b = ?body" and cc: "c = CHR ''(''" and k: "u' @ ?occ = ?k @ r"
      using tk dr by simp_all
    have "prefix ?k (u' @ ?occ)" using k by simp
    then consider "prefix ?k u'" | v where "?k = u' @ v" "v \<noteq> []" "prefix v ?occ"
      unfolding prefix_append by (metis append_Nil2 prefix_order.refl)
    then show ?thesis
    proof cases
      case 1
      then obtain z where "u' = ?k @ z" by (auto simp: prefix_def)
      then have "u = w @ z" using u bb cc w by simp
      then show ?thesis by simp
    next
      case 2
      then have "hd v = CHR ''s''" by (cases v) auto
      moreover have "hd v \<in> set ?k"
        using 2(1,2) by (metis hd_in_set in_set_conv_decomp Un_iff set_append)
      moreover have "CHR ''s'' \<notin> set ?k"
        using m' by (auto simp: in_class_def numcl_def)
      ultimately show ?thesis by simp
    qed
  qed
qed

lemma apply_rules_Cons: "apply_rules ((p, t) # rs) s = apply_rules rs (re_sub p t s)"
  by (simp add: apply_rules_def)

lemma apply_rules_barrier:
  "\<forall>(p, t)\<in>set rs. good_rule p t \<Longrightarrow> barrier R \<Longrightarrow>
   apply_rules rs (a @ R @ b) = apply_rules rs a @ R @ apply_rules rs b"
proof (induction rs arbitrary: a b)
  case Nil
  then show ?case by (simp add: apply_rules_def)
next
  case (Cons r rs)
  obtain p t where r: "r = (p, t)" by (cases r)
  have "good_pattern p" using Cons.prems(1) r by (simp add: good_rule_def)
  then have "re_sub p t (a @ R @ b) = re_sub p t a @ R @ re_sub p t b"
    using Cons.prems(2) by (rule re_sub_barrier)
  then show ?case
    using Cons.IH Cons.prems by (simp add: r apply_rules_Cons)
qed


lemma rules_good_from:
  "\<forall>(p, t)\<in>set (drop n rules). good_rule p t"
  using good_rules by (auto dest: in_set_dropD)

lemma rules_1: "rules = (pattern1, replacement1) # drop 1 rules"
  by (simp add: rules_def)

lemma rules_3:
  "rules = (pattern1, replacement1) # (pattern2, replacement2) # (pattern3, replacement3) #
           drop 3 rules"
  by (simp add: rules_def)

lemma rewrite_content_1:
  "rewrite_content s = apply_rules (drop 1 rules) (re_sub pattern1 replacement1 s)"
  unfolding rewrite_content_rules by (subst rules_1) (simp only: apply_rules_Cons)

lemma rewrite_content_3:
  "rewrite_content s =
     apply_rules (drop 3 rules)
       (re_sub pattern3 replacement3 (re_sub pattern2 replacement2 (re_sub pattern1 replacement1 s)))"
  unfolding rewrite_content_rules by (subst rules_3) (simp only: apply_rules_Cons)

lemma occurrence1_frame:
  assumes "name \<noteq> []" and "\<forall>c\<in>set name. in_class ident c"
  shows "rewrite_content (pre @ ''self.theme.scheme.'' @ name @ ''.into()'' @ post) =
         rewrite_content pre @ ''iced::Color::from(self.theme.scheme.'' @ name @ '')'' @
         rewrite_content post"
proof -
  let ?occ = "''self.theme.scheme.'' @ name @ ''.into()''"
  let ?R = "''iced::Color::from(self.theme.scheme.'' @ name @ '')''"
  have w: "parses pattern1 ?occ [name]"
    using assms by (simp add: parses_pattern1)
  have R: "expand replacement1 [name] = ?R"
    by (simp add: replacement1_def)
  have "re_sub pattern1 replacement1 (pre @ ?occ @ post) =
        re_sub pattern1 replacement1 pre @ re_sub pattern1 replacement1 (?occ @ post)"
    using re_sub_append [OF wf_pattern1 closes_occurrence1 [OF assms]] by simp
  also have "re_sub pattern1 replacement1 (?occ @ post) = ?R @ re_sub pattern1 replacement1 post"
    using re_sub_word [OF wf_pattern1 w, of replacement1 post] R by simp
  finally have 1: "re_sub pattern1 replacement1 (pre @ ?occ @ post) =
        re_sub pattern1 replacement1 pre @ ?R @ re_sub pattern1 replacement1 post" .
  have "barrier (expand replacement1 [name])"
    using good_rule1 w unfolding good_rule_def by blast
  then have "barrier ?R" unfolding R .
  then have "apply_rules (drop 1 rules) (re_sub pattern1 replacement1 pre @ ?R @
               re_sub pattern1 replacement1 post) =
             apply_rules (drop 1 rules) (re_sub pattern1 replacement1 pre) @ ?R @
             apply_rules (drop 1 rules) (re_sub pattern1 replacement1 post)"
    by (rule apply_rules_barrier [OF rules_good_from])
  then show ?thesis
    using 1 by (simp add: rewrite_content_1)
qed

lemma occurrence3_frame:
  assumes "name \<noteq> []" and "\<forall>c\<in>set name. in_class ident c"
    and "num \<noteq> []" and "\<forall>c\<in>set num. in_class numcl c"
  shows "rewrite_content
           (pre @ ''self.theme.scheme.'' @ name @ ''.scale_alpha('' @ num @ '').into()'' @ post) =
         rewrite_content pre @
         ''iced::Color::from(self.theme.scheme.'' @ name @ ''.scale_alpha('' @ num @ ''))'' @
         rewrite_content post"
proof -
  let ?x = "''self.theme.scheme.'' @ name @ ''.scale_alpha''"
  let ?occ = "''self.theme.scheme.'' @ name @ ''.scale_alpha('' @ num @ '').into()''"
  let ?R = "''iced::Color::from(self.theme.scheme.'' @ name @ ''.scale_alpha('' @ num @ ''))''"
  have occ: "?occ = ?x @ ''('' @ num @ '').into()''" by simp
  have x: "?x \<noteq> []" "\<forall>c\<in>set ?x. no_paren c"
    using ident_no_paren [OF assms(2)] by (auto simp: no_paren_def)
  have f: "re_sub p t (a @ ?occ @ b) = re_sub p t a @ ?occ @ re_sub p t b"
    if "simple_pattern p" "\<And>w gs. parses p w gs \<Longrightarrow> 7 < length w" for p t a b
    using re_sub_frame_alpha [OF that x assms(3,4), where t = t and a = a and b = b] by simp
  let ?s1 = "\<lambda>s. re_sub pattern1 replacement1 s"
  let ?s2 = "\<lambda>s. re_sub pattern2 replacement2 (?s1 s)"
  let ?s3 = "\<lambda>s. re_sub pattern3 replacement3 (?s2 s)"
  have 1: "?s1 (pre @ ?occ @ post) = ?s1 pre @ ?occ @ ?s1 post"
    by (rule f [OF simple_pattern1 long_pattern1])
  have 2: "?s2 (pre @ ?occ @ post) = ?s2 pre @ ?occ @ ?s2 post"
    unfolding 1 by (rule f [OF simple_pattern2 long_pattern2])
  have w: "parses pattern3 ?occ [name, num]"
    using assms by (simp add: parses_pattern3)
  have R: "expand replacement3 [name, num] = ?R"
    by (simp add: replacement3_def)
  have "re_sub pattern3 replacement3 (?s2 pre @ ?occ @ ?s2 post) =
        ?s3 pre @ re_sub pattern3 replacement3 (?occ @ ?s2 post)"
    using re_sub_append [OF wf_pattern3 closes_occurrence3 [OF assms]] by simp
  also have "re_sub pattern3 replacement3 (?occ @ ?s2 post) = ?R @ ?s3 post"
    using re_sub_word [OF wf_pattern3 w, of replacement3 "?s2 post"] R by simp
  finally have 3: "?s3 (pre @ ?occ @ post) = ?s3 pre @ ?R @ ?s3 post"
    unfolding 2 .
  have "barrier (expand replacement3 [name, num])"
    using good_rule3 w unfolding good_rule_def by blast
  then have "barrier ?R" unfolding R .
  then have "apply_rules (drop 3 rules) (?s3 pre @ ?R @ ?s3 post) =
             apply_rules (drop 3 rules) (?s3 pre) @ ?R @ apply_rules (drop 3 rules) (?s3 post)"
    by (rule apply_rules_barrier [OF rules_good_from])
  then show ?thesis
    using 3 by (simp add: rewrite_content_3)
qed

lemma no_match_let: "\<forall>(q, t)\<in>set rules. no_match q ''let c = '' \<and> no_match q '';''"
  by code_simp

section \<open>The argument of \<open>scale_alpha\<close>\<close>

lemma whole_match3:
  assumes "name \<noteq> []" and "\<forall>c\<in>set name. in_class ident c"
  shows "(\<exists>gs. match_items pattern3
            (''self.theme.scheme.'' @ name @ ''.scale_alpha('' @ num @ '').into()'') = Some (gs, [])) \<longleftrightarrow>
         num \<noteq> [] \<and> (\<forall>c\<in>set num. in_class numcl c)"
proof
  assume "\<exists>gs. match_items pattern3
            (''self.theme.scheme.'' @ name @ ''.scale_alpha('' @ num @ '').into()'') = Some (gs, [])"
  then obtain gs where "parses pattern3
      (''self.theme.scheme.'' @ name @ ''.scale_alpha('' @ num @ '').into()'') gs"
    using match_items_SomeD [OF wf_pattern3] by fastforce
  then obtain g m where g: "\<forall>c\<in>set g. in_class ident c"
    and m: "m \<noteq> []" "\<forall>c\<in>set m. in_class numcl c"
    and e: "name @ CHR ''.'' # ''scale_alpha('' @ num @ '').into()'' =
            g @ CHR ''.'' # ''scale_alpha('' @ m @ '').into()''"
    by (auto simp: parses_pattern3)
  have "''scale_alpha('' @ num @ '').into()'' = ''scale_alpha('' @ m @ '').into()''"
    using first_occurrence [OF _ _ e] ident_set [OF assms(2)] ident_set [OF g] by blast
  then have "num = m" by simp
  with m show "num \<noteq> [] \<and> (\<forall>c\<in>set num. in_class numcl c)" by simp
next
  assume "num \<noteq> [] \<and> (\<forall>c\<in>set num. in_class numcl c)"
  then have "parses pattern3
      (''self.theme.scheme.'' @ name @ ''.scale_alpha('' @ num @ '').into()'') [name, num]"
    using assms by (simp add: parses_pattern3)
  then show "\<exists>gs. match_items pattern3
            (''self.theme.scheme.'' @ name @ ''.scale_alpha('' @ num @ '').into()'') = Some (gs, [])"
    using match_items_word [OF wf_pattern3, of _ _ "[]"] by fastforce
qed

lemma whole_match4:
  assumes "name \<noteq> []" and "\<forall>c\<in>set name. in_class ident c"
  shows "(\<exists>gs. match_items pattern4
            (''theme.scheme.'' @ name @ ''.scale_alpha('' @ num @ '').into()'') = Some (gs, [])) \<longleftrightarrow>
         num \<noteq> [] \<and> (\<forall>c\<in>set num. in_class numcl c)"
proof
  assume "\<exists>gs. match_items pattern4
            (''theme.scheme.'' @ name @ ''.scale_alpha('' @ num @ '').into()'') = Some (gs, [])"
  then obtain gs where "parses pattern4
      (''theme.scheme.'' @ name @ ''.scale_alpha('' @ num @ '').into()'') gs"
    using match_items_SomeD [OF wf_pattern4] by fastforce
  then obtain g m where g: "\<forall>c\<in>set g. in_class ident c"
    and m: "m \<noteq> []" "\<forall>c\<in>set m. in_class numcl c"
    and e: "name @ CHR ''.'' # ''scale_alpha('' @ num @ '').into()'' =
            g @ CHR ''.'' # ''scale_alpha('' @ m @ '').into()''"
    by (auto simp: parses_pattern4)
  have "''scale_alpha('' @ num @ '').into()'' = ''scale_alpha('' @ m @ '').into()''"
    using first_occurrence [OF _ _ e] ident_set [OF assms(2)] ident_set [OF g] by blast
  then have "num = m" by simp
  with m show "num \<noteq> [] \<and> (\<forall>c\<in>set num. in_class numcl c)" by simp
next
  assume "num \<noteq> [] \<and> (\<forall>c\<in>set num. in_class numcl c)"
  then have "parses pattern4
      (''theme.scheme.'' @ name @ ''.scale_alpha('' @ num @ '').into()'') [name, num]"
    using assms by (simp add: parses_pattern4)
  then show "\<exists>gs. match_items pattern4
            (''theme.scheme.'' @ name @ ''.scale_alpha('' @ num @ '').into()'') = Some (gs, [])"
    using match_items_word [OF wf_pattern4, of _ _ "[]"] by fastforce
qed


section \<open>One pass with alternatives and the passes one by one\<close>

lemma first_match_None:
  "first_match alts s = None \<longleftrightarrow> (\<forall>(p, t)\<in>set alts. match_items p s = None)"
  by (induction alts s rule: first_match.induct) (auto split: option.splits)

lemma first_match_SomeD:
  assumes "\<forall>(p, t)\<in>set alts. wf_pattern p" and "first_match alts s = Some (out, r)"
  shows "\<exists>p t w gs. (p, t) \<in> set alts \<and> parses p w gs \<and> w \<noteq> [] \<and> s = w @ r \<and> out = expand t gs"
  using assms
proof (induction alts s rule: first_match.induct)
  case (1 s)
  then show ?case by simp
next
  case (2 p t alts s)
  show ?case
  proof (cases "match_items p s")
    case None
    with 2 show ?thesis by auto
  next
    case (Some x)
    obtain gs r' where x: "x = (gs, r')" by (cases x)
    have wf: "wf_pattern p" using "2.prems"(1) by simp
    from Some x "2.prems"(2) have "r' = r" "out = expand t gs" by simp_all
    moreover from match_items_SomeD [OF wf] Some x obtain w where
      "s = w @ r'" "w \<noteq> []" "parses p w gs" by blast
    ultimately show ?thesis by auto
  qed
qed

lemma global_replace_Nil:
  "\<forall>(p, t)\<in>set alts. wf_pattern p \<Longrightarrow> global_replace alts [] = []"
  by (subst global_replace.simps)
    (auto split: option.splits dest!: first_match_SomeD)

lemma global_replace_miss:
  "first_match alts (c # s) = None \<Longrightarrow> global_replace alts (c # s) = c # global_replace alts s"
  by (subst global_replace.simps) simp

lemma global_replace_hit:
  "\<forall>(p, t)\<in>set alts. wf_pattern p \<Longrightarrow> first_match alts s = Some (out, r) \<Longrightarrow>
   global_replace alts s = out @ global_replace alts r"
  by (subst global_replace.simps) (auto dest!: first_match_SomeD)

lemma global_replace_skip:
  "(\<forall>u. u \<noteq> [] \<and> suffix u x \<longrightarrow> first_match alts (u @ y) = None) \<Longrightarrow>
   global_replace alts (x @ y) = x @ global_replace alts y"
proof (induction x)
  case Nil
  then show ?case by simp
next
  case (Cons c x)
  have "first_match alts ((c # x) @ y) = None"
    using Cons.prems by blast
  moreover have "\<forall>u. u \<noteq> [] \<and> suffix u x \<longrightarrow> first_match alts (u @ y) = None"
    using Cons.prems by (simp add: suffix_Cons)
  ultimately show ?case
    using Cons.IH by (simp add: global_replace_miss)
qed

text \<open>What the alternatives find at the head of a text, before and after a pass.\<close>

lemma first_match_after_sub:
  assumes r: "good_rule p t" and alts: "\<forall>(p', t')\<in>set alts. good_pattern p'"
  shows "first_match alts (u @ s) = None \<Longrightarrow> first_match alts (u @ re_sub p t s) = None"
proof -
  assume n: "first_match alts (u @ s) = None"
  have "match_items p' (u @ re_sub p t s) = None" if "(p', t') \<in> set alts" for p' t'
  proof -
    have gp: "good_pattern p'" using alts that by blast
    then have wf: "wf_pattern p'" by (simp add: good_pattern_def)
    have "match_items p' (u @ s) = None"
      using n that by (auto simp: first_match_None)
    then have nw: "\<forall>w gs. parses p' w gs \<longrightarrow> \<not> prefix w (u @ s)"
      by (simp add: match_items_None_iff [OF wf])
    have "\<not> prefix w (u @ re_sub p t s)" if "parses p' w gs" for w gs
    proof
      assume "prefix w (u @ re_sub p t s)"
      moreover have "good_word w"
        using gp that unfolding good_pattern_def by blast
      ultimately have "prefix w (u @ s)"
        using word_before_sub [OF r] by blast
      with nw that show False by blast
    qed
    then show ?thesis by (simp add: match_items_None_iff [OF wf])
  qed
  then show ?thesis by (auto simp: first_match_None)
qed

lemma first_match_word_after_sub:
  assumes r: "good_rule p t" and alts: "\<forall>(p', t')\<in>set alts. good_pattern p'"
  shows "first_match alts (w @ s) = Some (out, s) \<Longrightarrow>
         first_match alts (w @ re_sub p t s) = Some (out, re_sub p t s)"
  using alts
proof (induction alts)
  case Nil
  then show ?case by simp
next
  case (Cons a alts)
  obtain p' t' where a: "a = (p', t')" by (cases a)
  have gp: "good_pattern p'" using Cons.prems(2) a by simp
  then have wf: "wf_pattern p'" by (simp add: good_pattern_def)
  show ?case
  proof (cases "match_items p' (w @ s)")
    case None
    then have "first_match [(p', t')] (w @ s) = None" by simp
    then have "first_match [(p', t')] (w @ re_sub p t s) = None"
      using first_match_after_sub [OF r, of "[(p', t')]" w s] gp by simp
    then have "match_items p' (w @ re_sub p t s) = None"
      unfolding first_match_None by simp
    moreover have "first_match alts (w @ s) = Some (out, s)"
      using Cons.prems(1) None a by simp
    ultimately show ?thesis
      using Cons.IH Cons.prems(2) a by simp
  next
    case (Some x)
    obtain gs r' where x: "x = (gs, r')" by (cases x)
    from Some x Cons.prems(1) a have e: "r' = s" "out = expand t' gs" by simp_all
    from match_items_SomeD [OF wf] Some x e obtain w' where
      "w @ s = w' @ s" "parses p' w' gs" by blast
    then have "parses p' w gs" by simp
    then have "match_items p' (w @ re_sub p t s) = Some (gs, re_sub p t s)"
      by (rule match_items_word [OF wf])
    then show ?thesis using a e by simp
  qed
qed


lemma global_replace_empty: "global_replace [] s = s"
  using global_replace_skip [of s "[]" "[]"] global_replace_Nil [of "[]"] by simp

lemma global_replace_Cons:
  assumes r: "good_rule p t" and alts: "\<forall>(p', t')\<in>set alts. good_rule p' t'"
    and ap: "\<forall>(p', t')\<in>set alts. apart p p'"
  shows "global_replace ((p, t) # alts) s = global_replace alts (re_sub p t s)"
proof (induction s rule: length_induct)
  case (1 s)
  have wf: "wf_pattern p" using r by (simp add: good_rule_def good_pattern_def)
  have gps: "\<forall>(p', t')\<in>set alts. good_pattern p'"
    using alts by (auto simp: good_rule_def)
  have wfs: "\<forall>(p', t')\<in>set alts. wf_pattern p'"
    using gps by (auto simp: good_pattern_def)
  have wfa: "\<forall>(p', t')\<in>set ((p, t) # alts). wf_pattern p'"
    using wf wfs by simp
  show ?case
  proof (cases "match_items p s")
    case (Some x)
    obtain gs r1 where x: "x = (gs, r1)" by (cases x)
    from match_items_SomeD [OF wf] Some x obtain w where
      w: "s = w @ r1" "w \<noteq> []" "parses p w gs" by blast
    have b: "barrier (expand t gs)"
      using r w(3) unfolding good_rule_def by blast
    have "first_match ((p, t) # alts) s = Some (expand t gs, r1)"
      using Some x by simp
    then have "global_replace ((p, t) # alts) s = expand t gs @ global_replace ((p, t) # alts) r1"
      by (rule global_replace_hit [OF wfa])
    also have "global_replace ((p, t) # alts) r1 = global_replace alts (re_sub p t r1)"
      using "1.IH" w by simp
    also have "expand t gs @ global_replace alts (re_sub p t r1) =
               global_replace alts (expand t gs @ re_sub p t r1)"
    proof (rule global_replace_skip [symmetric], intro allI impI)
      fix u assume u: "u \<noteq> [] \<and> suffix u (expand t gs)"
      have "match_items p' (u @ re_sub p t r1) = None" if "(p', t') \<in> set alts" for p' t'
        using none_inside_barrier [OF _ b] gps that u by blast
      then show "first_match alts (u @ re_sub p t r1) = None"
        by (auto simp: first_match_None)
    qed
    also have "expand t gs @ re_sub p t r1 = re_sub p t s"
      using Some x by (simp add: re_sub_hit [OF wf])
    finally show ?thesis .
  next
    case None
    show ?thesis
    proof (cases s)
      case Nil
      then show ?thesis
        by (simp add: global_replace_Nil [OF wfa] global_replace_Nil [OF wfs] re_sub_Nil [OF wf])
    next
      case (Cons c s')
      have sub: "re_sub p t s = c # re_sub p t s'"
        using None Cons by (simp add: re_sub_miss)
      have fm: "first_match ((p, t) # alts) s = first_match alts s"
        using None by simp
      show ?thesis
      proof (cases "first_match alts s")
        case None
        then have "global_replace ((p, t) # alts) s = c # global_replace ((p, t) # alts) s'"
          using fm Cons by (simp add: global_replace_miss)
        also have "global_replace ((p, t) # alts) s' = global_replace alts (re_sub p t s')"
          using "1.IH" Cons by simp
        also have "first_match alts ([c] @ re_sub p t s') = None"
          using first_match_after_sub [OF r gps, of "[c]" s'] None Cons by simp
        then have "c # global_replace alts (re_sub p t s') =
                   global_replace alts (c # re_sub p t s')"
          by (simp add: global_replace_miss)
        finally show ?thesis using sub by simp
      next
        case (Some y)
        obtain out r2 where y: "y = (out, r2)" by (cases y)
        from first_match_SomeD [OF wfs] Some y obtain p' t' w' gs' where
          w': "(p', t') \<in> set alts" "parses p' w' gs'" "w' \<noteq> []" "s = w' @ r2"
          by blast
        have "apart p p'" using ap w'(1) by blast
        have skip: "re_sub p t (w' @ r2) = w' @ re_sub p t r2"
        proof (rule re_sub_skip [OF wf], intro allI impI)
          fix u assume u: "u \<noteq> [] \<and> suffix u w'"
          show "match_items p (u @ r2) = None"
          proof (cases "u = w'")
            case True
            then show ?thesis using None w'(4) by simp
          next
            case False
            then have "\<forall>x gs. parses p x gs \<longrightarrow> \<not> prefix x (u @ r2)"
              using \<open>apart p p'\<close> w'(2) u unfolding apart_def by blast
            then show ?thesis by (simp add: match_items_None_iff [OF wf])
          qed
        qed
        have "first_match alts (w' @ r2) = Some (out, r2)"
          using Some y w'(4) by simp
        then have fm2: "first_match alts (w' @ re_sub p t r2) = Some (out, re_sub p t r2)"
          by (rule first_match_word_after_sub [OF r gps])
        have "global_replace ((p, t) # alts) s = out @ global_replace ((p, t) # alts) r2"
          using global_replace_hit [OF wfa, of s out r2] fm Some y by simp
        also have "global_replace ((p, t) # alts) r2 = global_replace alts (re_sub p t r2)"
          using "1.IH" w'(3,4) by simp
        also have "out @ global_replace alts (re_sub p t r2) =
                   global_replace alts (w' @ re_sub p t r2)"
          using global_replace_hit [OF wfs fm2] by simp
        finally show ?thesis using skip w'(4) by simp
      qed
    qed
  qed
qed

lemma global_replace_single:
  "good_rule p t \<Longrightarrow> global_replace [(p, t)] s = re_sub p t s"
  using global_replace_Cons [of p t "[]" s] by (simp add: global_replace_empty)

lemma simple_var_pattern:
  assumes "\<forall>c\<in>set v. no_paren c"
  shows "simple_pattern (var_pattern v)"
proof -
  have "\<forall>c\<in>set (v @ ''.into''). no_paren c"
    using assms by (auto simp: no_paren_def)
  then have "simple_word ((v @ ''.into'') @ ''()'')"
    unfolding simple_word_def by blast
  then show ?thesis
    unfolding simple_pattern_def using wf_var_pattern by (simp add: parses_var_pattern)
qed

lemma apart_var_pattern:
  assumes v: "\<forall>c\<in>set v. no_paren c" and v': "\<forall>c\<in>set v'. no_paren c"
    and ns: "suffix v v' \<longrightarrow> v = v'"
  shows "apart (var_pattern v) (var_pattern v')"
  unfolding apart_def
proof (intro allI impI notI)
  fix x gs w gs' u z
  assume a: "parses (var_pattern v) x gs \<and> parses (var_pattern v') w gs' \<and> suffix u w \<and>
      u \<noteq> [] \<and> u \<noteq> w" and p: "prefix x (u @ z)"
  then have x: "x = v @ ''.into()''" and w: "w = v' @ ''.into()''"
    by (simp_all add: parses_var_pattern)
  have sw: "simple_word x"
    using simple_var_pattern [OF v] a unfolding simple_pattern_def by blast
  from a have "suffix u ((v' @ ''.into'') @ ''()'')" using w by simp
  then consider "u = '')''" | k where "suffix k (v' @ ''.into'')" "u = k @ ''()''"
    using a unfolding suffix_append by (auto simp: suffix_Cons)
  then show False
  proof cases
    case 1
    then show ?thesis using simple_prefix [OF sw p] by (simp add: no_paren_def)
  next
    case 2
    have "\<forall>c\<in>set (v' @ ''.into''). no_paren c"
      using v' by (auto simp: no_paren_def)
    moreover have "set k \<subseteq> set (v' @ ''.into'')"
      using 2(1) by (rule set_mono_suffix)
    ultimately have k: "\<forall>c\<in>set k. no_paren c"
      by blast
    have "x = k @ ''()''"
      using simple_prefix [OF sw p] takeWhile_no_paren_open [OF k, of "CHR '')'' # z"] 2(2)
      by simp
    then have "x = u" using 2(2) by simp
    then have "suffix (v @ ''.into()'') (v' @ ''.into()'')" "v \<noteq> v'"
      using a x w by auto
    then show False using ns by simp
  qed
qed

lemma foldl_vars_global_replace:
  assumes "\<forall>v\<in>set vs. var_ok v \<and> (\<forall>c\<in>set v. no_paren c)"
    and "\<forall>v\<in>set vs. \<forall>v'\<in>set vs. suffix v v' \<longrightarrow> v = v'"
  shows "foldl (\<lambda>content var. re_sub (var_pattern var) (var_replacement var) content) s vs =
         global_replace (map (\<lambda>var. (var_pattern var, var_replacement var)) vs) s"
  using assms
proof (induction vs arbitrary: s)
  case Nil
  then show ?case by (simp add: global_replace_empty)
next
  case (Cons v vs)
  let ?mk = "\<lambda>var. (var_pattern var, var_replacement var)"
  have "good_rule (var_pattern v) (var_replacement v)"
    using Cons.prems(1) by (simp add: good_rule_var)
  moreover have "\<forall>(p', t')\<in>set (map ?mk vs). good_rule p' t'"
    using Cons.prems(1) by (auto simp: good_rule_var)
  moreover have "\<forall>(p', t')\<in>set (map ?mk vs). apart (var_pattern v) p'"
    using Cons.prems by (auto intro!: apart_var_pattern)
  ultimately have "global_replace (?mk v # map ?mk vs) s =
      global_replace (map ?mk vs) (re_sub (var_pattern v) (var_replacement v) s)"
    by (rule global_replace_Cons)
  then show ?case
    using Cons.IH [of "re_sub (var_pattern v) (var_replacement v) s"] Cons.prems by simp
qed

lemma color_vars_no_paren: "\<forall>v\<in>set color_vars. \<forall>c\<in>set v. no_paren c"
  by (simp add: color_vars_def no_paren_def)

lemma color_vars_no_suffix: "\<forall>v\<in>set color_vars. \<forall>v'\<in>set color_vars. suffix v v' \<longrightarrow> v = v'"
  by (simp add: color_vars_def suffix_Cons)


section \<open>The claims\<close>

text \<open>
  C1. Wherever \<open>self.theme.scheme.<name>.into()\<close> stands in the input, with a
  non-empty name of letters and underscores, the output has
  \<open>iced::Color::from(self.theme.scheme.<name>)\<close> in its place, between the outputs of
  the text before it and of the text after it: the name is kept as it is, and the
  rewriting of the occurrence takes nothing from its surroundings and adds nothing to
  them. Surroundings that hold no match of any pattern (a trailing semicolon) are in
  the output as they were.
\<close>

theorem rule1_rewrites_occurrence:
  assumes "name \<noteq> []" and "\<forall>c\<in>set name. in_class ident c"
  shows "rewrite_content (pre @ ''self.theme.scheme.'' @ name @ ''.into()'' @ post) =
         rewrite_content pre @ ''iced::Color::from(self.theme.scheme.'' @ name @ '')'' @
         rewrite_content post \<and>
         ((\<forall>(q, t)\<in>set rules. no_match q pre \<and> no_match q post) \<longrightarrow>
          rewrite_content (pre @ ''self.theme.scheme.'' @ name @ ''.into()'' @ post) =
          pre @ ''iced::Color::from(self.theme.scheme.'' @ name @ '')'' @ post)"
proof (intro conjI impI)
  show f: "rewrite_content (pre @ ''self.theme.scheme.'' @ name @ ''.into()'' @ post) =
         rewrite_content pre @ ''iced::Color::from(self.theme.scheme.'' @ name @ '')'' @
         rewrite_content post"
    by (rule occurrence1_frame [OF assms])
  assume "\<forall>(q, t)\<in>set rules. no_match q pre \<and> no_match q post"
  then have "rewrite_content pre = pre" "rewrite_content post = post"
    by (auto intro!: rewrite_no_match)
  with f show "rewrite_content (pre @ ''self.theme.scheme.'' @ name @ ''.into()'' @ post) =
          pre @ ''iced::Color::from(self.theme.scheme.'' @ name @ '')'' @ post"
    by simp
qed

theorem rule1_rewrites_occurrence_witness:
  "rewrite_content ''let c = self.theme.scheme.background.into();'' =
   ''let c = iced::Color::from(self.theme.scheme.background);''"
proof -
  have n: "''background'' \<noteq> []" "\<forall>c\<in>set ''background''. in_class ident c"
    by (simp_all add: in_class_def ident_def)
  from rule1_rewrites_occurrence [OF n, THEN conjunct2, THEN mp, OF no_match_let]
  show ?thesis by simp
qed

text \<open>
  C2. Rule 5 is not confined to the five names: its patterns have no word boundary, so
  the identifier \<open>my_text_color\<close>, which is none of the five, is rewritten from its
  sixth character on, and the output is no Rust expression.
\<close>

theorem rule5_rewrites_inside_identifier:
  "rewrite_content ''my_text_color.into()'' = ''my_iced::Color::from(text_color)'' \<and>
   ''my_text_color'' \<notin> set color_vars"
proof -
  have "rewrite_content ''my_text_color.into()'' = ''my_iced::Color::from(text_color)''"
    by code_simp
  moreover have "''my_text_color'' \<notin> set color_vars"
    by (simp add: color_vars_def)
  ultimately show ?thesis by blast
qed


text \<open>
  C3. The rule sequence is idempotent: a second pass over the output of a first pass
  changes nothing.
\<close>

theorem rewrite_content_idempotent:
  "rewrite_content (rewrite_content s) = rewrite_content s"
proof -
  have "\<forall>(q, t)\<in>set rules. no_match q (rewrite_content s)"
    unfolding rewrite_content_rules by (rule no_match_apply_rules [OF good_rules])
  moreover have "\<forall>(q, t)\<in>set rules. wf_pattern q"
    using good_rules by (auto simp: good_rule_def good_pattern_def)
  ultimately have "apply_rules rules (rewrite_content s) = rewrite_content s"
    by (intro apply_rules_fixed) auto
  then show ?thesis by (simp add: rewrite_content_rules)
qed


text \<open>
  C4. Wherever \<open>self.theme.scheme.<name>.scale_alpha(<num>).into()\<close> stands in the
  input, with a non-empty name of letters and underscores and a non-empty argument of
  digits and points, the output has
  \<open>iced::Color::from(self.theme.scheme.<name>.scale_alpha(<num>))\<close> in its place, between
  the outputs of the text before it and of the text after it: name, argument and the
  call of \<open>scale_alpha\<close> are kept as they are, and surroundings that hold no match of
  any pattern are in the output as they were.
\<close>

theorem rule3_rewrites_occurrence:
  assumes "name \<noteq> []" and "\<forall>c\<in>set name. in_class ident c"
    and "num \<noteq> []" and "\<forall>c\<in>set num. in_class numcl c"
  shows "rewrite_content
           (pre @ ''self.theme.scheme.'' @ name @ ''.scale_alpha('' @ num @ '').into()'' @ post) =
         rewrite_content pre @
         ''iced::Color::from(self.theme.scheme.'' @ name @ ''.scale_alpha('' @ num @ ''))'' @
         rewrite_content post \<and>
         ((\<forall>(q, t)\<in>set rules. no_match q pre \<and> no_match q post) \<longrightarrow>
          rewrite_content
            (pre @ ''self.theme.scheme.'' @ name @ ''.scale_alpha('' @ num @ '').into()'' @ post) =
          pre @ ''iced::Color::from(self.theme.scheme.'' @ name @ ''.scale_alpha('' @ num @ ''))'' @
          post)"
proof (intro conjI impI)
  show f: "rewrite_content
           (pre @ ''self.theme.scheme.'' @ name @ ''.scale_alpha('' @ num @ '').into()'' @ post) =
         rewrite_content pre @
         ''iced::Color::from(self.theme.scheme.'' @ name @ ''.scale_alpha('' @ num @ ''))'' @
         rewrite_content post"
    by (rule occurrence3_frame [OF assms])
  assume "\<forall>(q, t)\<in>set rules. no_match q pre \<and> no_match q post"
  then have "rewrite_content pre = pre" "rewrite_content post = post"
    by (auto intro!: rewrite_no_match)
  with f show "rewrite_content
            (pre @ ''self.theme.scheme.'' @ name @ ''.scale_alpha('' @ num @ '').into()'' @ post) =
          pre @ ''iced::Color::from(self.theme.scheme.'' @ name @ ''.scale_alpha('' @ num @ ''))'' @
          post"
    by simp
qed

theorem rule3_rewrites_occurrence_witness:
  "rewrite_content ''let c = self.theme.scheme.background.scale_alpha(0.5).into();'' =
   ''let c = iced::Color::from(self.theme.scheme.background.scale_alpha(0.5));''"
proof -
  have n: "''background'' \<noteq> []" "\<forall>c\<in>set ''background''. in_class ident c"
    by (simp_all add: in_class_def ident_def)
  have m: "''0.5'' \<noteq> []" "\<forall>c\<in>set ''0.5''. in_class numcl c"
    by (simp_all add: in_class_def numcl_def)
  from rule3_rewrites_occurrence [OF n m, THEN conjunct2, THEN mp, OF no_match_let]
  show ?thesis by simp
qed

text \<open>
  C5. A file that can be read is written if and only if the rule sequence changes its
  text: an unchanged text leaves the world as it was (no write, nothing printed, not
  counted), a changed text replaces the whole content, adds one write and one line. A
  text with no match of any pattern is unchanged. The summary line of a run that ends
  prints the number of writes of the run.
\<close>

theorem written_iff_changed:
  "(files w p = Some f \<and> readable f \<and> decodable f \<longrightarrow>
      (rewrite_content (data f) = data f \<longrightarrow> fix_color_conversions p w = (Inr False, w)) \<and>
      (rewrite_content (data f) \<noteq> data f \<and> writable f \<longrightarrow>
         fix_color_conversions p w =
           (Inr True,
            w\<lparr>files := (files w)(p \<mapsto> f\<lparr>data := rewrite_content (data f)\<rparr>),
              writes := writes w @ [p],
              stdout := stdout w @ [''Fixed color conversions in '' @ p]\<rparr>))) \<and>
   ((\<forall>(q, t)\<in>set rules. no_match q c) \<longrightarrow> rewrite_content c = c) \<and>
   (main component_files w = (Inr (), w') \<longrightarrow>
      length (writes w) \<le> length (writes w') \<and>
      stdout w' \<noteq> [] \<and>
      last (stdout w') =
        ''Modified '' @ show_nat (length (writes w') - length (writes w)) @ '' files'')"
proof (intro conjI impI)
  assume "files w p = Some f \<and> readable f \<and> decodable f"
    and "rewrite_content (data f) = data f"
  then show "fix_color_conversions p w = (Inr False, w)"
    by (simp add: fix_color_conversions_def)
next
  assume "files w p = Some f \<and> readable f \<and> decodable f"
    and "rewrite_content (data f) \<noteq> data f \<and> writable f"
  then show "fix_color_conversions p w =
           (Inr True,
            w\<lparr>files := (files w)(p \<mapsto> f\<lparr>data := rewrite_content (data f)\<rparr>),
              writes := writes w @ [p],
              stdout := stdout w @ [''Fixed color conversions in '' @ p]\<rparr>)"
    by (simp add: fix_color_conversions_def)
next
  assume "\<forall>(q, t)\<in>set rules. no_match q c"
  then show "rewrite_content c = c" by (rule rewrite_no_match)
next
  assume m: "main component_files w = (Inr (), w')"
  then obtain n w1 where l: "main_loop component_files 0 w = (Inr n, w1)"
    and w': "w' = w1\<lparr>stdout := stdout w1 @ [''Modified '' @ show_nat n @ '' files'']\<rparr>"
    by (auto simp: main_def split: prod.splits sum.splits)
  have t: "n + length (writes w) = length (writes w1)"
    using main_loop_tally [OF l] by simp
  show "length (writes w) \<le> length (writes w')" using t w' by simp
  show "stdout w' \<noteq> []" using w' by simp
  have "n = length (writes w') - length (writes w)" using t w' by simp
  then show "last (stdout w') =
        ''Modified '' @ show_nat (length (writes w') - length (writes w)) @ '' files''"
    using w' by simp
qed

theorem written_iff_changed_witness:
  "fix_color_conversions ''b.rs'' example_world = (Inr False, example_world) \<and>
   fix_color_conversions ''a.rs'' example_world =
     (Inr True,
      example_world
        \<lparr>files := (files example_world)
           (''a.rs'' \<mapsto> plain_file ''let c = iced::Color::from(border_color);''),
         writes := [''a.rs''],
         stdout := [''Fixed color conversions in a.rs'']\<rparr>) \<and>
   rewrite_content ''fn main() {}'' = ''fn main() {}'' \<and>
   last (stdout (snd (main [''a.rs'', ''b.rs'', ''d.rs''] example_world))) = ''Modified 2 files''"
proof -
  have nm: "\<forall>(q, t)\<in>set rules. no_match q ''fn main() {}''"
    by code_simp
  have b: "files example_world ''b.rs'' = Some (plain_file ''fn main() {}'')"
    and a: "files example_world ''a.rs'' = Some (plain_file ''let c = border_color.into();'')"
    by (simp_all add: example_world_def)
  obtain w' where m: "main [''a.rs'', ''b.rs'', ''d.rs''] example_world = (Inr (), w')"
    and wr: "writes w' = [''a.rs'', ''d.rs'']"
    using main_loop_append [OF loop_ab, of "[''d.rs'']"]
    by (simp add: main_def fix_color_conversions_def example_world_def plain_file_def rewrite_d)
  have A: "fix_color_conversions ''b.rs'' example_world = (Inr False, example_world)"
    using written_iff_changed [THEN conjunct1, of example_world "''b.rs''"
        "plain_file ''fn main() {}''"] b
    by (simp add: plain_file_def rewrite_b)
  have B: "fix_color_conversions ''a.rs'' example_world =
     (Inr True,
      example_world
        \<lparr>files := (files example_world)
           (''a.rs'' \<mapsto> plain_file ''let c = iced::Color::from(border_color);''),
         writes := [''a.rs''],
         stdout := [''Fixed color conversions in a.rs'']\<rparr>)"
    using written_iff_changed [THEN conjunct1, of example_world "''a.rs''"
        "plain_file ''let c = border_color.into();''"] a
    by (simp add: plain_file_def rewrite_a) (simp add: example_world_def)
  have C: "rewrite_content ''fn main() {}'' = ''fn main() {}''"
    using written_iff_changed [THEN conjunct2, THEN conjunct1, of "''fn main() {}''"] nm
    by blast
  have s: "show_nat (Suc (Suc 0)) = ''2''" by code_simp
  have "writes example_world = []" by (simp add: example_world_def)
  then have "last (stdout w') = ''Modified 2 files''"
    using written_iff_changed [THEN conjunct2, THEN conjunct2,
        of "[''a.rs'', ''b.rs'', ''d.rs'']" example_world w'] m wr
    by (simp add: s)
  then have D: "last (stdout (snd (main [''a.rs'', ''b.rs'', ''d.rs''] example_world))) =
      ''Modified 2 files''"
    by (simp add: m)
  from A B C D show ?thesis by blast
qed


text \<open>
  C6, as the code has it. With a non-empty name of letters and underscores, pattern 3
  matches the whole of \<open>self.theme.scheme.<name>.scale_alpha(<num>).into()\<close>, and
  pattern 4 the whole of the same text without \<open>self.\<close>, exactly when \<open><num>\<close> is a
  non-empty string of characters of the class \<open>[0-9.]\<close>: digits and points in any number
  and order. The rule then puts the argument unchanged into the output.
\<close>

theorem numeric_argument_class:
  assumes "name \<noteq> []" and "\<forall>c\<in>set name. in_class ident c"
  shows "((\<exists>gs. match_items pattern3
            (''self.theme.scheme.'' @ name @ ''.scale_alpha('' @ num @ '').into()'') = Some (gs, [])) \<longleftrightarrow>
          num \<noteq> [] \<and> (\<forall>c\<in>set num. in_class numcl c)) \<and>
         ((\<exists>gs. match_items pattern4
            (''theme.scheme.'' @ name @ ''.scale_alpha('' @ num @ '').into()'') = Some (gs, [])) \<longleftrightarrow>
          num \<noteq> [] \<and> (\<forall>c\<in>set num. in_class numcl c)) \<and>
         (num \<noteq> [] \<and> (\<forall>c\<in>set num. in_class numcl c) \<longrightarrow>
            re_sub pattern3 replacement3
              (''self.theme.scheme.'' @ name @ ''.scale_alpha('' @ num @ '').into()'' @ rest) =
            ''iced::Color::from(self.theme.scheme.'' @ name @ ''.scale_alpha('' @ num @ ''))'' @
            re_sub pattern3 replacement3 rest \<and>
            re_sub pattern4 replacement4
              (''theme.scheme.'' @ name @ ''.scale_alpha('' @ num @ '').into()'' @ rest) =
            ''iced::Color::from(theme.scheme.'' @ name @ ''.scale_alpha('' @ num @ ''))'' @
            re_sub pattern4 replacement4 rest)"
proof (intro conjI impI)
  show "(\<exists>gs. match_items pattern3
            (''self.theme.scheme.'' @ name @ ''.scale_alpha('' @ num @ '').into()'') = Some (gs, [])) \<longleftrightarrow>
          num \<noteq> [] \<and> (\<forall>c\<in>set num. in_class numcl c)"
    by (rule whole_match3 [OF assms])
  show "(\<exists>gs. match_items pattern4
            (''theme.scheme.'' @ name @ ''.scale_alpha('' @ num @ '').into()'') = Some (gs, [])) \<longleftrightarrow>
          num \<noteq> [] \<and> (\<forall>c\<in>set num. in_class numcl c)"
    by (rule whole_match4 [OF assms])
next
  assume n: "num \<noteq> [] \<and> (\<forall>c\<in>set num. in_class numcl c)"
  have "parses pattern3
      (''self.theme.scheme.'' @ name @ ''.scale_alpha('' @ num @ '').into()'') [name, num]"
    using assms n by (simp add: parses_pattern3)
  from re_sub_word [OF wf_pattern3 this, of replacement3 rest]
  show "re_sub pattern3 replacement3
          (''self.theme.scheme.'' @ name @ ''.scale_alpha('' @ num @ '').into()'' @ rest) =
        ''iced::Color::from(self.theme.scheme.'' @ name @ ''.scale_alpha('' @ num @ ''))'' @
        re_sub pattern3 replacement3 rest"
    by (simp add: replacement3_def)
  have "parses pattern4
      (''theme.scheme.'' @ name @ ''.scale_alpha('' @ num @ '').into()'') [name, num]"
    using assms n by (simp add: parses_pattern4)
  from re_sub_word [OF wf_pattern4 this, of replacement4 rest]
  show "re_sub pattern4 replacement4
          (''theme.scheme.'' @ name @ ''.scale_alpha('' @ num @ '').into()'' @ rest) =
        ''iced::Color::from(theme.scheme.'' @ name @ ''.scale_alpha('' @ num @ ''))'' @
        re_sub pattern4 replacement4 rest"
    by (simp add: replacement4_def)
qed

theorem numeric_argument_class_witness:
  "(\<exists>gs. match_items pattern3 ''self.theme.scheme.a.scale_alpha(1.2.3).into()'' = Some (gs, [])) \<and>
   (\<exists>gs. match_items pattern4 ''theme.scheme.a.scale_alpha(..).into()'' = Some (gs, [])) \<and>
   \<not> (\<exists>gs. match_items pattern3 ''self.theme.scheme.a.scale_alpha(1e3).into()'' = Some (gs, [])) \<and>
   re_sub pattern3 replacement3 ''self.theme.scheme.a.scale_alpha(1.2.3).into()'' =
     ''iced::Color::from(self.theme.scheme.a.scale_alpha(1.2.3))''"
proof -
  have a: "''a'' \<noteq> []" "\<forall>c\<in>set ''a''. in_class ident c"
    by (simp_all add: in_class_def ident_def)
  have n: "''1.2.3'' \<noteq> [] \<and> (\<forall>c\<in>set ''1.2.3''. in_class numcl c)"
    "''..'' \<noteq> [] \<and> (\<forall>c\<in>set ''..''. in_class numcl c)"
    "\<not> (''1e3'' \<noteq> [] \<and> (\<forall>c\<in>set ''1e3''. in_class numcl c))"
    by (simp_all add: in_class_def numcl_def)
  have e: "re_sub pattern3 replacement3 [] = []"
    by (rule re_sub_Nil [OF wf_pattern3])
  show ?thesis
    using numeric_argument_class [OF a, of "''1.2.3''" "[]"]
      numeric_argument_class [OF a, of "''..''" "[]"]
      numeric_argument_class [OF a, of "''1e3''" "[]"] n e
    by simp
qed

text \<open>
  C6, as the specification states it, fails: \<open>1.2.3\<close> is not a number with an optional
  decimal point, and rule 3 fires on it.
\<close>

theorem numeric_argument_counterexample:
  "\<not> decimal_shape ''1.2.3'' \<and>
   rewrite_content ''self.theme.scheme.a.scale_alpha(1.2.3).into()'' =
     ''iced::Color::from(self.theme.scheme.a.scale_alpha(1.2.3))''"
proof -
  have "\<not> decimal_shape ''1.2.3''"
    by (simp add: decimal_shape_def)
  moreover have "rewrite_content ''self.theme.scheme.a.scale_alpha(1.2.3).into()'' =
     ''iced::Color::from(self.theme.scheme.a.scale_alpha(1.2.3))''"
    by code_simp
  ultimately show ?thesis by blast
qed


text \<open>
  C7. The function is the rule engine of the specification: five global passes in the
  order 1 to 5, each over the whole output of the pass before it, none depending on
  what an earlier pass found. The loop over the five names does what one pass with
  the five names as alternatives does.
\<close>

theorem rewrite_content_is_rule_engine: "rewrite_content s = rule_engine s"
proof -
  have "foldl (\<lambda>content var. re_sub (var_pattern var) (var_replacement var) content) b color_vars =
        global_replace (map (\<lambda>var. (var_pattern var, var_replacement var)) color_vars) b" for b
    using color_vars_ok color_vars_no_paren color_vars_no_suffix
    by (intro foldl_vars_global_replace) auto
  then show ?thesis
    by (simp add: rewrite_content_def rule_engine_def five_rules_def Let_def
        global_replace_single good_rule1 good_rule2 good_rule3 good_rule4)
qed


theorem rewrite_content_is_rule_engine_witness:
  "rule_engine ''a = border_color.into() + text_color.into();'' =
   ''a = iced::Color::from(border_color) + iced::Color::from(text_color);''"
proof -
  have "rewrite_content ''a = border_color.into() + text_color.into();'' =
      ''a = iced::Color::from(border_color) + iced::Color::from(text_color);''"
    by code_simp
  then show ?thesis
    using rewrite_content_is_rule_engine [of "''a = border_color.into() + text_color.into();''"]
    by simp
qed

text \<open>
  C8. When a file of the list cannot be read, decoded or written, the run ends there
  with that error: the world is the one the files before it left (their rewrites
  stay, nothing is rolled back, no summary is printed), the failing call changes
  nothing, and every file that is not among the files before it has its old content.
\<close>

theorem error_aborts_run:
  assumes "main_loop pre 0 w = (Inr m, w1)" and "fix_color_conversions p w1 = (Inl e, w2)"
  shows "main (pre @ p # post) w = (Inl e, w1) \<and> w2 = w1 \<and>
         (e = ReadError p \<or> e = DecodeError p \<or> e = WriteError p) \<and>
         (\<forall>q. q \<notin> set pre \<longrightarrow> files w1 q = files w q)"
proof -
  have e: "w2 = w1" "e = ReadError p \<or> e = DecodeError p \<or> e = WriteError p"
    using fix_color_conversions_error [OF assms(2)] by simp_all
  have "main_loop (pre @ p # post) 0 w = main_loop (p # post) m w1"
    by (rule main_loop_append [OF assms(1)])
  also have "\<dots> = (Inl e, w1)"
    using assms(2) e(1) by simp
  finally have "main (pre @ p # post) w = (Inl e, w1)"
    by (simp add: main_def)
  moreover have "\<forall>q. q \<notin> set pre \<longrightarrow> files w1 q = files w q"
    using main_loop_other [OF assms(1)] by blast
  ultimately show ?thesis using e by blast
qed

theorem error_aborts_run_witness:
  "main [''a.rs'', ''b.rs'', ''c.rs'', ''d.rs''] example_world =
     (Inl (ReadError ''c.rs''),
      example_world
        \<lparr>files := (files example_world)
           (''a.rs'' \<mapsto> plain_file ''let c = iced::Color::from(border_color);''),
         writes := [''a.rs''],
         stdout := [''Fixed color conversions in a.rs'']\<rparr>) \<and>
   files (snd (main [''a.rs'', ''b.rs'', ''c.rs'', ''d.rs''] example_world)) ''d.rs'' =
     Some (plain_file ''text_color.into()'')"
proof -
  let ?w1 = "example_world
        \<lparr>files := (files example_world)
           (''a.rs'' \<mapsto> plain_file ''let c = iced::Color::from(border_color);''),
         writes := [''a.rs''],
         stdout := [''Fixed color conversions in a.rs'']\<rparr>"
  have c: "fix_color_conversions ''c.rs'' ?w1 = (Inl (ReadError ''c.rs''), ?w1)"
    by (simp add: fix_color_conversions_def example_world_def plain_file_def)
  have "main ([''a.rs'', ''b.rs''] @ ''c.rs'' # [''d.rs'']) example_world =
          (Inl (ReadError ''c.rs''), ?w1)"
    using error_aborts_run [OF loop_ab c] by blast
  then show ?thesis
    by (simp add: example_world_def)
qed


text \<open>
  C9. The patterns of rules 1 and 2 do not match at a call
  \<open>[self.]theme.scheme.<name>.scale_alpha(<num>).into()\<close>, and the two passes leave it
  where it stands: after them the buffer holds the call unchanged, between the
  outputs of the text before it and of the text after it, for rules 3 and 4 to find.
\<close>

theorem alpha_form_passes_rules_1_2:
  assumes "name \<noteq> []" and "\<forall>c\<in>set name. in_class ident c"
    and "num \<noteq> []" and "\<forall>c\<in>set num. in_class numcl c"
    and "q = ''self.theme.scheme.'' \<or> q = ''theme.scheme.''"
  shows "match_items pattern1 (q @ name @ ''.scale_alpha('' @ num @ '').into()'' @ post) = None \<and>
         match_items pattern2 (q @ name @ ''.scale_alpha('' @ num @ '').into()'' @ post) = None \<and>
         re_sub pattern2 replacement2 (re_sub pattern1 replacement1
           (pre @ q @ name @ ''.scale_alpha('' @ num @ '').into()'' @ post)) =
         re_sub pattern2 replacement2 (re_sub pattern1 replacement1 pre) @
         q @ name @ ''.scale_alpha('' @ num @ '').into()'' @
         re_sub pattern2 replacement2 (re_sub pattern1 replacement1 post)"
proof -
  let ?x = "q @ name @ ''.scale_alpha''"
  let ?occ = "q @ name @ ''.scale_alpha('' @ num @ '').into()''"
  have occ: "?occ = ?x @ ''('' @ num @ '').into()''" by simp
  have "\<forall>c\<in>set q. no_paren c" "q \<noteq> []"
    using assms(5) by (auto simp: no_paren_def)
  then have x: "?x \<noteq> []" "\<forall>c\<in>set ?x. no_paren c"
    using ident_no_paren [OF assms(2)] by (auto simp: no_paren_def)
  have n: "match_items p (?occ @ post) = None" if "simple_pattern p" for p
    using none_before_arg [OF that x(2) assms(3,4), of "'').into()'' @ post"] by simp
  have f: "re_sub p t (a @ ?occ @ b) = re_sub p t a @ ?occ @ re_sub p t b"
    if "simple_pattern p" "\<And>w gs. parses p w gs \<Longrightarrow> 7 < length w" for p t a b
    using re_sub_frame_alpha [OF that x assms(3,4), where t = t and a = a and b = b] by simp
  let ?s1 = "\<lambda>s. re_sub pattern1 replacement1 s"
  let ?s2 = "\<lambda>s. re_sub pattern2 replacement2 (?s1 s)"
  have 1: "?s1 (pre @ ?occ @ post) = ?s1 pre @ ?occ @ ?s1 post"
    by (rule f [OF simple_pattern1 long_pattern1])
  have 2: "?s2 (pre @ ?occ @ post) = ?s2 pre @ ?occ @ ?s2 post"
    unfolding 1 by (rule f [OF simple_pattern2 long_pattern2])
  show ?thesis
    using n [OF simple_pattern1] n [OF simple_pattern2] 2 by simp
qed

theorem alpha_form_passes_rules_1_2_witness:
  "re_sub pattern2 replacement2 (re_sub pattern1 replacement1
     ''theme.scheme.a.into() + theme.scheme.bg.scale_alpha(0.5).into()'') =
   ''iced::Color::from(theme.scheme.a) + theme.scheme.bg.scale_alpha(0.5).into()'' \<and>
   match_items pattern2 ''theme.scheme.bg.scale_alpha(0.5).into()'' = None"
proof -
  have "\<forall>c\<in>set ''bg''. in_class ident c"
    by (simp add: in_class_def ident_def)
  moreover have "\<forall>c\<in>set ''0.5''. in_class numcl c"
    by (simp add: in_class_def numcl_def)
  moreover have "re_sub pattern2 replacement2 (re_sub pattern1 replacement1
      ''theme.scheme.a.into() + '') = ''iced::Color::from(theme.scheme.a) + ''"
    by code_simp
  moreover have "re_sub pattern2 replacement2 (re_sub pattern1 replacement1 []) = []"
    by code_simp
  ultimately show ?thesis
    using alpha_form_passes_rules_1_2 [of "''bg''" "''0.5''" "''theme.scheme.''"
        "[]" "''theme.scheme.a.into() + ''"]
    by simp
qed


text \<open>
  C10. Whatever the input, the output of the whole rule sequence holds no match of any
  of the patterns: not of the four scheme patterns and not of \<open><var>.into()\<close> for any of
  the five names. And no expanded template holds the text \<open>.into(\<close>.
\<close>

theorem output_has_no_match:
  "no_match pattern1 (rewrite_content s) \<and> no_match pattern2 (rewrite_content s) \<and>
   no_match pattern3 (rewrite_content s) \<and> no_match pattern4 (rewrite_content s) \<and>
   (\<forall>var\<in>set color_vars. no_match (var_pattern var) (rewrite_content s)) \<and>
   (\<forall>(p, t)\<in>set rules. \<forall>w gs. parses p w gs \<longrightarrow> \<not> sublist ''.into('' (expand t gs))"
proof -
  have "\<forall>(q, t)\<in>set rules. no_match q (rewrite_content s)"
    unfolding rewrite_content_rules by (rule no_match_apply_rules [OF good_rules])
  moreover have "\<forall>(p, t)\<in>set rules. \<forall>w gs. parses p w gs \<longrightarrow> \<not> sublist ''.into('' (expand t gs)"
    using no_into_rules by blast
  ultimately show ?thesis
    by (simp add: rules_def)
qed

theorem output_has_no_match_witness:
  "\<not> no_match (var_pattern ''text_color'') ''text_color.into()'' \<and>
   no_match (var_pattern ''text_color'') (rewrite_content ''text_color.into()'') \<and>
   no_match pattern1 (rewrite_content ''text_color.into()'') \<and>
   \<not> sublist ''.into('' (expand replacement1 [''bg''])"
proof -
  have "\<not> no_match (var_pattern ''text_color'') ''text_color.into()''"
    by (simp add: no_match_def var_pattern_def)
  moreover have "parses pattern1 ''self.theme.scheme.bg.into()'' [''bg'']"
    by (simp add: parses_pattern1 in_class_def ident_def)
  ultimately show ?thesis
    using output_has_no_match [of "''text_color.into()''"]
    by (auto simp: color_vars_def rules_def)
qed


end
